theory Spec2Isabelle
  imports Main "HOL-Library.Word"
begin

unbundle bit_operations_syntax

section \<open>Configuration constants (user_config.h)\<close>

type_synonym u8 = "8 word"
type_synonym u16 = "16 word"
type_synonym u32 = "32 word"

definition UART_RX_BUFFER_SIZE :: nat where
  "UART_RX_BUFFER_SIZE = 1024"

definition UART_TX_BUFFER_SIZE :: nat where
  "UART_TX_BUFFER_SIZE = 1024"

definition MAX_PACKET_SIZE :: nat where
  "MAX_PACKET_SIZE = 256"

definition IEEE80211_HEADER_SIZE :: nat where
  "IEEE80211_HEADER_SIZE = 24"

definition IEEE80211_FCTL_FTYPE :: u16 where
  "IEEE80211_FCTL_FTYPE = 0x000C"

definition IEEE80211_FCTL_MGMT :: u16 where
  "IEEE80211_FCTL_MGMT = 0x0000"

definition IEEE80211_FC_PROBE_REQ :: u16 where
  "IEEE80211_FC_PROBE_REQ = 0x0040"

definition TX_FRAME_BUFFER_SIZE :: nat where
  "TX_FRAME_BUFFER_SIZE = IEEE80211_HEADER_SIZE + MAX_PACKET_SIZE"

text \<open>An array \<open>uint8_t[6]\<close>, the six bytes of an address in order.\<close>

datatype addr6 = Addr6 u8 u8 u8 u8 u8 u8

fun addr_bytes :: "addr6 \<Rightarrow> u8 list" where
  "addr_bytes (Addr6 b0 b1 b2 b3 b4 b5) = [b0, b1, b2, b3, b4, b5]"

definition CUSTOM_BSSID :: addr6 where
  "CUSTOM_BSSID = Addr6 0xAA 0xBB 0xCC 0xDD 0xEE 0x00"

definition BROADCAST_MAC :: addr6 where
  "BROADCAST_MAC = Addr6 0xFF 0xFF 0xFF 0xFF 0xFF 0xFF"

section \<open>UART driver with ring buffers (uart.c)\<close>

text \<open>
  The file-scope variables of uart.c.  The two arrays are lists, the indices and counters
  are machine words of the width the source declares.  Two fields stand for the hardware
  the driver talks to: \<open>uart_fifo\<close> collects, in order, every byte the transmit handler
  writes to the UART0 FIFO register, and \<open>txfifo_empty_int_ena\<close> is the transmit-empty bit
  of the interrupt-enable register.
\<close>

record uart_state =
  uart_rx_buffer :: "u8 list"
  uart_rx_head :: u16
  uart_rx_tail :: u16
  uart_tx_buffer :: "u8 list"
  uart_tx_head :: u16
  uart_tx_tail :: u16
  uart_rx_overflow_count :: u32
  uart_tx_overflow_count :: u32
  uart_fifo :: "u8 list"
  txfifo_empty_int_ena :: bool

definition RX_BUFFER_MASK :: u16 where
  "RX_BUFFER_MASK = of_nat (UART_RX_BUFFER_SIZE - 1)"

definition TX_BUFFER_MASK :: u16 where
  "TX_BUFFER_MASK = of_nat (UART_TX_BUFFER_SIZE - 1)"

definition RX_INCREMENT :: "u16 \<Rightarrow> u16" where
  "RX_INCREMENT idx = (idx + 1) AND RX_BUFFER_MASK"

definition TX_INCREMENT :: "u16 \<Rightarrow> u16" where
  "TX_INCREMENT idx = (idx + 1) AND TX_BUFFER_MASK"

text \<open>
  The body shared by both branches of \<open>uart0_rx_intr_handler\<close>: one iteration per byte
  that the hardware FIFO holds.  The argument is the sequence of bytes the FIFO register
  yields; its length is the \<open>rx_fifo_len\<close> of the source.
\<close>

fun rx_fifo_loop :: "u8 list \<Rightarrow> uart_state \<Rightarrow> uart_state" where
  "rx_fifo_loop [] s = s"
| "rx_fifo_loop (byte # fifo) s =
     (let next_head = RX_INCREMENT (uart_rx_head s) in
      rx_fifo_loop fifo
        (if next_head \<noteq> uart_rx_tail s
         then s\<lparr>uart_rx_buffer := (uart_rx_buffer s)[unat (uart_rx_head s) := byte],
                uart_rx_head := next_head\<rparr>
         else s\<lparr>uart_rx_overflow_count := uart_rx_overflow_count s + 1\<rparr>))"

text \<open>
  The receive interrupt handler.  \<open>full_st\<close> and \<open>tout_st\<close> are the two bits of the
  interrupt status register it tests, \<open>fifo_full\<close> and \<open>fifo_tout\<close> the bytes the FIFO
  holds when the respective branch runs.
\<close>

definition uart0_rx_intr_handler ::
  "bool \<Rightarrow> u8 list \<Rightarrow> bool \<Rightarrow> u8 list \<Rightarrow> uart_state \<Rightarrow> uart_state" where
  "uart0_rx_intr_handler full_st fifo_full tout_st fifo_tout s =
     (let s1 = (if full_st then rx_fifo_loop fifo_full s else s)
      in (if tout_st then rx_fifo_loop fifo_tout s1 else s1))"

text \<open>
  The loop of \<open>uart0_tx_intr_handler\<close>; the first argument is \<open>tx_fifo_space\<close>.
\<close>

fun tx_fifo_loop :: "nat \<Rightarrow> uart_state \<Rightarrow> uart_state" where
  "tx_fifo_loop 0 s = s"
| "tx_fifo_loop (Suc tx_fifo_space) s =
     (if uart_tx_tail s \<noteq> uart_tx_head s
      then tx_fifo_loop tx_fifo_space
             (s\<lparr>uart_fifo := uart_fifo s @ [uart_tx_buffer s ! unat (uart_tx_tail s)],
                uart_tx_tail := TX_INCREMENT (uart_tx_tail s)\<rparr>)
      else s)"

text \<open>
  The transmit handler; \<open>empty_st\<close> is the transmit-FIFO-empty bit of the interrupt
  status register, which the hardware decides.
\<close>

definition uart0_tx_intr_handler :: "bool \<Rightarrow> uart_state \<Rightarrow> uart_state" where
  "uart0_tx_intr_handler empty_st s =
     (if empty_st
      then (let s1 = tx_fifo_loop 128 s
            in (if uart_tx_tail s1 = uart_tx_head s1
                then s1\<lparr>txfifo_empty_int_ena := False\<rparr> else s1))
      else s)"

definition uart_rx_available :: "uart_state \<Rightarrow> u16" where
  "uart_rx_available s =
     (let head = uart_rx_head s; tail = uart_rx_tail s
      in (if head \<ge> tail then head - tail
          else of_nat UART_RX_BUFFER_SIZE - tail + head))"

text \<open>
  The loop of \<open>uart_read_bytes\<close>.  The first argument is \<open>max_len - count\<close>; the bytes
  stored to \<open>buffer[0], buffer[1], ...\<close> are returned as a list, whose length is the
  \<open>count\<close> the source returns.
\<close>

fun read_loop :: "nat \<Rightarrow> uart_state \<Rightarrow> u8 list \<times> uart_state" where
  "read_loop 0 s = ([], s)"
| "read_loop (Suc n) s =
     (if uart_rx_tail s \<noteq> uart_rx_head s
      then (let b = uart_rx_buffer s ! unat (uart_rx_tail s);
                (bs, s') = read_loop n (s\<lparr>uart_rx_tail := RX_INCREMENT (uart_rx_tail s)\<rparr>)
            in (b # bs, s'))
      else ([], s))"

definition uart_read_bytes :: "u16 \<Rightarrow> uart_state \<Rightarrow> u8 list \<times> uart_state" where
  "uart_read_bytes max_len s = read_loop (unat max_len) s"

text \<open>
  The loop of \<open>uart_write_bytes\<close> over the \<open>len\<close> bytes at \<open>data\<close>; the first component
  of the result is \<open>count\<close>.  On a full buffer the counter goes up once and the loop is
  left.
\<close>

fun write_loop :: "u8 list \<Rightarrow> uart_state \<Rightarrow> nat \<times> uart_state" where
  "write_loop [] s = (0, s)"
| "write_loop (d # data) s =
     (let next_head = TX_INCREMENT (uart_tx_head s)
      in (if next_head = uart_tx_tail s
          then (0, s\<lparr>uart_tx_overflow_count := uart_tx_overflow_count s + 1\<rparr>)
          else (let (count, s') =
                      write_loop data
                        (s\<lparr>uart_tx_buffer := (uart_tx_buffer s)[unat (uart_tx_head s) := d],
                           uart_tx_head := next_head\<rparr>)
                in (Suc count, s'))))"

text \<open>
  \<open>uart_write_bytes\<close>: the loop, then, when the ring is not empty, the transmit-empty
  interrupt is enabled and the transmit handler is called by hand.
\<close>

definition uart_write_bytes :: "bool \<Rightarrow> u8 list \<Rightarrow> uart_state \<Rightarrow> nat \<times> uart_state" where
  "uart_write_bytes empty_st data s =
     (let (count, s1) = write_loop data s;
          s2 = (if uart_tx_tail s1 \<noteq> uart_tx_head s1
                then uart0_tx_intr_handler empty_st (s1\<lparr>txfifo_empty_int_ena := True\<rparr>)
                else s1)
      in (count, s2))"

subsection \<open>The bytes a ring holds\<close>

text \<open>
  The bytes between the read index \<open>tail\<close> and the write index \<open>head\<close> of a ring
  laid over the array \<open>buf\<close>, oldest first.
\<close>

definition ring :: "u8 list \<Rightarrow> nat \<Rightarrow> nat \<Rightarrow> u8 list" where
  "ring buf head tail =
     map (\<lambda>k. buf ! ((tail + k) mod length buf))
         [0 ..< (head + length buf - tail) mod length buf]"

definition rx_contents :: "uart_state \<Rightarrow> u8 list" where
  "rx_contents s =
     ring (uart_rx_buffer s) (unat (uart_rx_head s)) (unat (uart_rx_tail s))"

definition tx_contents :: "uart_state \<Rightarrow> u8 list" where
  "tx_contents s =
     ring (uart_tx_buffer s) (unat (uart_tx_head s)) (unat (uart_tx_tail s))"

text \<open>
  The arrays have their declared size and the indices stay inside them.
\<close>

definition uart_inv :: "uart_state \<Rightarrow> bool" where
  "uart_inv s \<longleftrightarrow>
     length (uart_rx_buffer s) = UART_RX_BUFFER_SIZE \<and>
     length (uart_tx_buffer s) = UART_TX_BUFFER_SIZE \<and>
     unat (uart_rx_head s) < UART_RX_BUFFER_SIZE \<and>
     unat (uart_rx_tail s) < UART_RX_BUFFER_SIZE \<and>
     unat (uart_tx_head s) < UART_TX_BUFFER_SIZE \<and>
     unat (uart_tx_tail s) < UART_TX_BUFFER_SIZE"

text \<open>The state after \<open>uart_init\<close>, over arrays of zeros.\<close>

definition uart_init :: uart_state where
  "uart_init =
     \<lparr>uart_rx_buffer = replicate UART_RX_BUFFER_SIZE 0,
      uart_rx_head = 0, uart_rx_tail = 0,
      uart_tx_buffer = replicate UART_TX_BUFFER_SIZE 0,
      uart_tx_head = 0, uart_tx_tail = 0,
      uart_rx_overflow_count = 0, uart_tx_overflow_count = 0,
      uart_fifo = [], txfifo_empty_int_ena = False\<rparr>"

section \<open>Raw 802.11 layer (wifi_raw.h, wifi_raw.c)\<close>

text \<open>
  \<open>struct ieee80211_hdr\<close> of wifi_raw.h, a packed struct: two 16-bit fields, three
  addresses of six bytes and a 16-bit field, 24 bytes in all.
\<close>

record ieee80211_hdr =
  frame_control :: u16
  duration_id :: u16
  addr1 :: addr6
  addr2 :: addr6
  addr3 :: addr6
  seq_ctrl :: u16

text \<open>
  \<open>struct RxControl\<close> of wifi_raw.h, the metadata block in front of a captured frame:
  bit-fields of the declared widths, \<open>rssi\<close> being the signed one.  With the three
  unnamed fields of 1, 1 and 12 bits the fields fill three 32-bit words, so the struct has
  12 bytes.
\<close>

record RxControl =
  rssi :: "8 word"
  rate :: "4 word"
  is_group :: "1 word"
  sig_mode :: "2 word"
  legacy_length :: "12 word"
  damatch0 :: "1 word"
  damatch1 :: "1 word"
  bssidmatch0 :: "1 word"
  bssidmatch1 :: "1 word"
  MCS :: "7 word"
  CWB :: "1 word"
  HT_length :: "16 word"
  Smoothing :: "1 word"
  Not_Sounding :: "1 word"
  Aggregation :: "1 word"
  STBC :: "2 word"
  FEC_CODING :: "1 word"
  SGI :: "1 word"
  rxend_state :: "8 word"
  ampdu_cnt :: "8 word"
  channel :: "4 word"

definition sizeof_RxControl :: nat where
  "sizeof_RxControl =
     ((8 + 4 + 1 + 1 + 2 + 12 + 1 + 1 + 1 + 1) +
      (7 + 1 + 16 + 1 + 1 + 1 + 1 + 2 + 1 + 1) +
      (8 + 8 + 4 + 12)) div 8"

text \<open>
  The file-scope variables of wifi_raw.c.  Three fields stand for the SDK and the memory
  around them: \<open>sta_mac\<close> is the address \<open>wifi_get_macaddr(STATION_IF, _)\<close> yields,
  \<open>sent_frames\<close> collects, in order, the \<open>frame_len\<close> bytes of every frame handed to
  \<open>wifi_send_pkt_freedom\<close>, and \<open>tx_frame_fault\<close> records a store that left
  \<open>tx_frame_buffer\<close>.
\<close>

record wifi_state =
  tx_frame_buffer :: "u8 list"
  tx_sequence :: u16
  tx_ready :: u8
  tx_count :: u32
  rx_count :: u32
  tx_error_count :: u32
  rx_drop_count :: u32
  sta_mac :: addr6
  sent_frames :: "u8 list list"
  tx_frame_fault :: bool

text \<open>
  The two bytes of a 16-bit field in memory, low byte first: the target is little-endian
  (the Makefile builds with \<open>-EL\<close>).
\<close>

definition le16 :: "u16 \<Rightarrow> u8 list" where
  "le16 w = [ucast w, ucast (drop_bit 8 w)]"

text \<open>
  The bytes of a header in memory: the struct is packed, so they are the fields in the
  order of the declaration with nothing between them.
\<close>

definition hdr_bytes :: "ieee80211_hdr \<Rightarrow> u8 list" where
  "hdr_bytes h =
     le16 (frame_control h) @ le16 (duration_id h) @
     addr_bytes (addr1 h) @ addr_bytes (addr2 h) @ addr_bytes (addr3 h) @
     le16 (seq_ctrl h)"

text \<open>
  \<open>build_80211_header\<close> fills the header its argument points to and advances
  \<open>tx_sequence\<close>; the header it built is returned next to the new state.
\<close>

definition build_80211_header :: "wifi_state \<Rightarrow> ieee80211_hdr \<times> wifi_state" where
  "build_80211_header w =
     (\<lparr>frame_control = IEEE80211_FC_PROBE_REQ,
       duration_id = 0,
       addr1 = BROADCAST_MAC,
       addr2 = sta_mac w,
       addr3 = CUSTOM_BSSID,
       seq_ctrl = push_bit 4 (tx_sequence w) AND 0xFFF0\<rparr>,
      w\<lparr>tx_sequence := tx_sequence w + 1\<rparr>)"

definition wifi_freedom_tx_cb :: "u8 \<Rightarrow> wifi_state \<Rightarrow> wifi_state" where
  "wifi_freedom_tx_cb status w = w\<lparr>tx_ready := 1\<rparr>"

text \<open>
  A store of \<open>bytes\<close> at offset \<open>off\<close> of an array: \<open>None\<close> when it would leave the array.
\<close>

definition mem_store :: "nat \<Rightarrow> u8 list \<Rightarrow> u8 list \<Rightarrow> u8 list option" where
  "mem_store off bytes buf =
     (if off + length bytes \<le> length buf
      then Some (take off buf @ bytes @ drop (off + length bytes) buf)
      else None)"

definition frame_store :: "nat \<Rightarrow> u8 list \<Rightarrow> wifi_state \<Rightarrow> wifi_state" where
  "frame_store off bytes w =
     (case mem_store off bytes (tx_frame_buffer w) of
        Some buf \<Rightarrow> w\<lparr>tx_frame_buffer := buf\<rparr>
      | None \<Rightarrow> w\<lparr>tx_frame_fault := True\<rparr>)"

text \<open>
  \<open>wifi_raw_send\<close>.  \<open>raw_data\<close> is \<open>None\<close> for the null pointer and otherwise the array
  it points to, of which the \<open>len\<close> first bytes are copied; \<open>sdk_result\<close> is what
  \<open>wifi_send_pkt_freedom\<close> returns when it is reached.
\<close>

definition wifi_raw_send ::
  "int \<Rightarrow> u8 list option \<Rightarrow> u16 \<Rightarrow> wifi_state \<Rightarrow> int \<times> wifi_state" where
  "wifi_raw_send sdk_result raw_data len w =
     (case raw_data of
        None \<Rightarrow> (- 1, w\<lparr>tx_error_count := tx_error_count w + 1\<rparr>)
      | Some data \<Rightarrow>
          if len = 0 \<or> unat len > MAX_PACKET_SIZE
          then (- 1, w\<lparr>tx_error_count := tx_error_count w + 1\<rparr>)
          else if tx_ready w = 0
          then (- 1, w\<lparr>tx_error_count := tx_error_count w + 1\<rparr>)
          else
            (let (hdr, w1) = build_80211_header w;
                 w2 = frame_store 0 (hdr_bytes hdr) w1;
                 w3 = frame_store IEEE80211_HEADER_SIZE
                        (map (\<lambda>i. data ! i) [0 ..< unat len]) w2;
                 frame_len = (of_nat IEEE80211_HEADER_SIZE + len :: u16);
                 w4 = w3\<lparr>tx_ready := 0\<rparr>;
                 w5 = w4\<lparr>sent_frames :=
                          sent_frames w4 @ [take (unat frame_len) (tx_frame_buffer w4)]\<rparr>
             in (if sdk_result = 0
                 then (sdk_result, w5\<lparr>tx_count := tx_count w5 + 1\<rparr>)
                 else (sdk_result,
                       w5\<lparr>tx_ready := 1, tx_error_count := tx_error_count w5 + 1\<rparr>))))"

text \<open>The statics of wifi_raw.c as \<open>wifi_raw_init\<close> leaves them.\<close>

definition wifi_raw_init :: "addr6 \<Rightarrow> wifi_state" where
  "wifi_raw_init mac =
     \<lparr>tx_frame_buffer = replicate TX_FRAME_BUFFER_SIZE 0,
      tx_sequence = 0, tx_ready = 1,
      tx_count = 0, rx_count = 0, tx_error_count = 0, rx_drop_count = 0,
      sta_mac = mac, sent_frames = [], tx_frame_fault = False\<rparr>"

section \<open>The firmware as a whole (main.c)\<close>

text \<open>
  The drivers' state and the statics of main.c.  \<open>led_gpio\<close> is the level last written
  to the LED pin and \<open>packet_fault\<close> records a store that left \<open>packet_buffer\<close>.
\<close>

record firmware =
  uart :: uart_state
  wifi :: wifi_state
  packet_buffer :: "u8 list"
  pkt_expected :: u16
  pkt_received :: u16
  led_counter :: u32
  heartbeat_counter :: u32
  led_gpio :: nat
  packet_fault :: bool

definition LED_ON :: nat where
  "LED_ON = 0"

definition LED_OFF :: nat where
  "LED_OFF = 1"

text \<open>
  A captured frame as \<open>wifi_promiscuous_rx_cb\<close> sees it through its pointer: the metadata
  block, the 802.11 header behind it, and the memory behind the header, \<open>cap_payload i\<close>
  being the byte \<open>payload[i]\<close>.
\<close>

record capture =
  rx_ctrl :: RxControl
  cap_hdr :: ieee80211_hdr
  cap_payload :: "nat \<Rightarrow> u8"

definition rx_drop :: "firmware \<Rightarrow> firmware" where
  "rx_drop fw = fw\<lparr>wifi := (wifi fw)\<lparr>rx_drop_count := rx_drop_count (wifi fw) + 1\<rparr>\<rparr>"

text \<open>
  \<open>wifi_promiscuous_rx_cb\<close>, statement by statement.  The result lists, in program
  order, the state after each statement that changes a variable: after a filter that
  fails, the one state with \<open>rx_drop_count\<close> incremented; otherwise the state after
  \<open>rx_count++\<close>, the state after the first call of \<open>uart_write_bytes\<close> and the state
  after the second.  \<open>empty_st1\<close> and \<open>empty_st2\<close> are the interrupt status bits the two
  calls find.
\<close>

definition wifi_promiscuous_rx_cb_steps ::
  "bool \<Rightarrow> bool \<Rightarrow> capture \<Rightarrow> u16 \<Rightarrow> firmware \<Rightarrow> firmware list" where
  "wifi_promiscuous_rx_cb_steps empty_st1 empty_st2 buf len fw =
     (if sig_mode (rx_ctrl buf) \<noteq> 0 \<or> unat len < sizeof_RxControl + 28
      then [rx_drop fw]
      else
        (let hdr = cap_hdr buf;
             frame_type = frame_control hdr AND IEEE80211_FCTL_FTYPE
         in (if frame_type \<noteq> IEEE80211_FCTL_MGMT
             then [rx_drop fw]
             else if addr3 hdr \<noteq> CUSTOM_BSSID
             then [rx_drop fw]
             else
               (let payload_len =
                      (ucast (legacy_length (rx_ctrl buf)) :: u16)
                        - of_nat IEEE80211_HEADER_SIZE - 4
                in (if unat payload_len > MAX_PACKET_SIZE
                    then [rx_drop fw]
                    else
                      (let fw1 = fw\<lparr>wifi := (wifi fw)\<lparr>rx_count := rx_count (wifi fw) + 1\<rparr>\<rparr>;
                           len_prefix = [ucast (drop_bit 8 payload_len AND 0xFF),
                                         ucast (payload_len AND 0xFF)];
                           fw2 = fw1\<lparr>uart :=
                                   snd (uart_write_bytes empty_st1 len_prefix (uart fw1))\<rparr>;
                           fw3 = fw2\<lparr>uart :=
                                   snd (uart_write_bytes empty_st2
                                          (map (cap_payload buf) [0 ..< unat payload_len])
                                          (uart fw2))\<rparr>
                       in [fw1, fw2, fw3]))))))"

text \<open>The state in which the callback returns.\<close>

definition wifi_promiscuous_rx_cb ::
  "bool \<Rightarrow> bool \<Rightarrow> capture \<Rightarrow> u16 \<Rightarrow> firmware \<Rightarrow> firmware" where
  "wifi_promiscuous_rx_cb empty_st1 empty_st2 buf len fw =
     last (wifi_promiscuous_rx_cb_steps empty_st1 empty_st2 buf len fw)"

text \<open>The LED flash and the heartbeat at the head of \<open>main_timer_callback\<close>.\<close>

definition housekeeping :: "firmware \<Rightarrow> firmware" where
  "housekeeping fw =
     (let fw1 = fw\<lparr>led_counter := led_counter fw + 1\<rparr>;
          fw2 = (if led_counter fw1 = 500 then fw1\<lparr>led_gpio := LED_ON\<rparr>
                 else if led_counter fw1 = 505
                 then fw1\<lparr>led_gpio := LED_OFF, led_counter := 0\<rparr>
                 else fw1);
          fw3 = fw2\<lparr>heartbeat_counter := heartbeat_counter fw2 + 1\<rparr>
      in (if heartbeat_counter fw3 \<ge> 500 then fw3\<lparr>heartbeat_counter := 0\<rparr> else fw3))"

text \<open>The first block of the bridge: waiting for the 2-byte length prefix.\<close>

definition read_header :: "firmware \<Rightarrow> firmware" where
  "read_header fw =
     (if pkt_expected fw = 0
      then (if uart_rx_available (uart fw) \<ge> 2
            then (let (len_bytes, u1) = uart_read_bytes 2 (uart fw);
                      expected = push_bit 8 (ucast (len_bytes ! 0) :: u16)
                                   OR ucast (len_bytes ! 1);
                      fw1 = fw\<lparr>uart := u1, pkt_expected := expected, pkt_received := 0\<rparr>
                  in (if pkt_expected fw1 = 0 \<or> unat (pkt_expected fw1) > MAX_PACKET_SIZE
                      then fw1\<lparr>pkt_expected := 0\<rparr>
                      else fw1))
            else fw)
      else fw)"

definition packet_store :: "nat \<Rightarrow> u8 list \<Rightarrow> firmware \<Rightarrow> firmware" where
  "packet_store off bytes fw =
     (case mem_store off bytes (packet_buffer fw) of
        Some buf \<Rightarrow> fw\<lparr>packet_buffer := buf\<rparr>
      | None \<Rightarrow> fw\<lparr>packet_fault := True\<rparr>)"

text \<open>
  The second block: accumulating the payload and sending the complete packet.  The first
  component of the result is the call of \<open>wifi_raw_send\<close> the block makes, if any: the
  array and the length it passes.
\<close>

definition accumulate :: "int \<Rightarrow> firmware \<Rightarrow> (u8 list \<times> u16) option \<times> firmware" where
  "accumulate sdk_result fw =
     (if pkt_expected fw > 0
      then
        (let remaining = pkt_expected fw - pkt_received fw;
             avail = uart_rx_available (uart fw);
             to_read = (if avail < remaining then avail else remaining);
             fw1 = (if to_read > 0
                    then (let (bytes, u1) = uart_read_bytes to_read (uart fw);
                              fw' = packet_store (unat (pkt_received fw)) bytes fw
                          in fw'\<lparr>uart := u1,
                                 pkt_received := pkt_received fw + of_nat (length bytes)\<rparr>)
                    else fw)
         in (if pkt_received fw1 \<ge> pkt_expected fw1
             then (let (r, w1) = wifi_raw_send sdk_result (Some (packet_buffer fw1))
                                   (pkt_expected fw1) (wifi fw1)
                   in (Some (packet_buffer fw1, pkt_expected fw1),
                       fw1\<lparr>wifi := w1, pkt_expected := 0, pkt_received := 0\<rparr>))
             else (None, fw1)))
      else (None, fw))"

text \<open>
  One tick: \<open>main_timer_callback\<close>.  \<open>sdk_result\<close> is what \<open>wifi_send_pkt_freedom\<close> returns
  if the tick reaches it.
\<close>

definition main_timer_callback ::
  "int \<Rightarrow> firmware \<Rightarrow> (u8 list \<times> u16) option \<times> firmware" where
  "main_timer_callback sdk_result fw = accumulate sdk_result (read_header (housekeeping fw))"

text \<open>
  One invocation of the receive interrupt, as the hardware presents it: the two status
  bits with the FIFO contents each branch finds.
\<close>

type_synonym rx_intr = "bool \<times> u8 list \<times> bool \<times> u8 list"

fun intr_bytes :: "rx_intr \<Rightarrow> u8 list" where
  "intr_bytes (full_st, fifo_full, tout_st, fifo_tout) =
     (if full_st then fifo_full else []) @ (if tout_st then fifo_tout else [])"

fun uart_intr :: "rx_intr \<Rightarrow> firmware \<Rightarrow> firmware" where
  "uart_intr (full_st, fifo_full, tout_st, fifo_tout) fw =
     fw\<lparr>uart := uart0_rx_intr_handler full_st fifo_full tout_st fifo_tout (uart fw)\<rparr>"

text \<open>
  A schedule of the serial-to-wireless direction: each step is one receive interrupt
  followed by one tick.  The result lists, tick by tick, the calls of \<open>wifi_raw_send\<close>.
\<close>

fun bridge_run ::
  "(rx_intr \<times> int) list \<Rightarrow> firmware \<Rightarrow> (u8 list \<times> u16) option list \<times> firmware" where
  "bridge_run [] fw = ([], fw)"
| "bridge_run ((i, sdk_result) # steps) fw =
     (let (call, fw1) = main_timer_callback sdk_result (uart_intr i fw);
          (calls, fw2) = bridge_run steps fw1
      in (call # calls, fw2))"

section \<open>Reference models and example states\<close>

text \<open>
  The bounded FIFO queue of the specification's CircularChannel contract, as a list of
  the bytes held, oldest first: a write accepts as many bytes as the remaining capacity
  allows and reports their number, a read takes up to \<open>max_len\<close> bytes from the front.
\<close>

definition fifo_write :: "nat \<Rightarrow> u8 list \<Rightarrow> u8 list \<Rightarrow> nat \<times> u8 list" where
  "fifo_write capacity data q =
     (min (length data) (capacity - length q), q @ take (capacity - length q) data)"

definition fifo_read :: "nat \<Rightarrow> u8 list \<Rightarrow> u8 list \<times> u8 list" where
  "fifo_read max_len q = (take max_len q, drop max_len q)"

text \<open>
  The two channels of the driver as two such queues, with the bytes that have left the
  outbound queue for the wire.
\<close>

record fifo_model =
  rx_queue :: "u8 list"
  tx_queue :: "u8 list"
  wire :: "u8 list"

text \<open>
  The operations that touch the rings: the receive interrupt, \<open>uart_read_bytes\<close> and
  \<open>uart_write_bytes\<close> (which runs the transmit handler itself), each with the inputs the
  model of the function takes, and what the caller gets back.
\<close>

datatype uart_op =
    RxIntr bool "u8 list" bool "u8 list"
  | ReadBytes u16
  | WriteBytes bool "u8 list"

datatype uart_obs = NoValue | BytesRead "u8 list" | Accepted nat

fun uart_do :: "uart_op \<Rightarrow> uart_state \<Rightarrow> uart_obs \<times> uart_state" where
  "uart_do (RxIntr full_st fifo_full tout_st fifo_tout) s =
     (NoValue, uart0_rx_intr_handler full_st fifo_full tout_st fifo_tout s)"
| "uart_do (ReadBytes max_len) s =
     (let (bytes, s') = uart_read_bytes max_len s in (BytesRead bytes, s'))"
| "uart_do (WriteBytes empty_st data) s =
     (let (count, s') = uart_write_bytes empty_st data s in (Accepted count, s'))"

fun uart_run :: "uart_op list \<Rightarrow> uart_state \<Rightarrow> uart_obs list \<times> uart_state" where
  "uart_run [] s = ([], s)"
| "uart_run (op # ops) s =
     (let (ob, s1) = uart_do op s; (obs, s2) = uart_run ops s1 in (ob # obs, s2))"

fun fifo_do :: "uart_op \<Rightarrow> fifo_model \<Rightarrow> uart_obs \<times> fifo_model" where
  "fifo_do (RxIntr full_st fifo_full tout_st fifo_tout) m =
     (let q1 = (if full_st then snd (fifo_write (UART_RX_BUFFER_SIZE - 1) fifo_full (rx_queue m))
                else rx_queue m);
          q2 = (if tout_st then snd (fifo_write (UART_RX_BUFFER_SIZE - 1) fifo_tout q1)
                else q1)
      in (NoValue, m\<lparr>rx_queue := q2\<rparr>))"
| "fifo_do (ReadBytes max_len) m =
     (let (bytes, q) = fifo_read (unat max_len) (rx_queue m)
      in (BytesRead bytes, m\<lparr>rx_queue := q\<rparr>))"
| "fifo_do (WriteBytes empty_st data) m =
     (let (count, q1) = fifo_write (UART_TX_BUFFER_SIZE - 1) data (tx_queue m);
          (out, q2) = (if empty_st then fifo_read 128 q1 else ([], q1))
      in (Accepted count, m\<lparr>tx_queue := q2, wire := wire m @ out\<rparr>))"

fun fifo_run :: "uart_op list \<Rightarrow> fifo_model \<Rightarrow> uart_obs list \<times> fifo_model" where
  "fifo_run [] m = ([], m)"
| "fifo_run (op # ops) m =
     (let (ob, m1) = fifo_do op m; (obs, m2) = fifo_run ops m1 in (ob # obs, m2))"

text \<open>What a state of the driver stands for in the reference model.\<close>

definition abs_uart :: "uart_state \<Rightarrow> fifo_model" where
  "abs_uart s = \<lparr>rx_queue = rx_contents s, tx_queue = tx_contents s, wire = uart_fifo s\<rparr>"

text \<open>A driver state whose transmit ring is full: 1023 bytes held, no free slot.\<close>

definition tx_full_state :: uart_state where
  "tx_full_state = uart_init\<lparr>uart_tx_head := 1023\<rparr>"

text \<open>The two subfields of the sequence field: bits 15:4 and bits 3:0.\<close>

definition sequence_number :: "ieee80211_hdr \<Rightarrow> u16" where
  "sequence_number h = drop_bit 4 (seq_ctrl h)"

definition fragment_number :: "ieee80211_hdr \<Rightarrow> u16" where
  "fragment_number h = seq_ctrl h AND 0xF"

text \<open>A station address, and the wireless layer after \<open>wifi_raw_init\<close> on that station.\<close>

definition example_mac :: addr6 where
  "example_mac = Addr6 0x5C 0xCF 0x7F 0x00 0x00 0x01"

definition wifi_idle :: wifi_state where
  "wifi_idle = wifi_raw_init example_mac"

text \<open>The same with a transmission in progress.\<close>

definition wifi_busy :: wifi_state where
  "wifi_busy = wifi_idle\<lparr>tx_ready := 0\<rparr>"

text \<open>
  The two functions that write \<open>tx_ready\<close>, as events: a call of \<open>wifi_raw_send\<close> with the
  result the SDK gives it, and the completion callback.
\<close>

datatype wifi_event = RawSend int "u8 list option" u16 | TxComplete u8

fun wifi_do :: "wifi_event \<Rightarrow> wifi_state \<Rightarrow> wifi_state" where
  "wifi_do (RawSend sdk_result raw_data len) w = snd (wifi_raw_send sdk_result raw_data len w)"
| "wifi_do (TxComplete status) w = wifi_freedom_tx_cb status w"

text \<open>The number of frames an event hands to \<open>wifi_send_pkt_freedom\<close>.\<close>

definition issued :: "wifi_event \<Rightarrow> wifi_state \<Rightarrow> nat" where
  "issued e w = length (sent_frames (wifi_do e w)) - length (sent_frames w)"

text \<open>
  The number of transmissions outstanding after a sequence of events, \<open>n\<close> being
  outstanding before it: a frame the SDK accepts (result 0) becomes outstanding, and a
  completion callback ends one.
\<close>

fun outstanding :: "wifi_event list \<Rightarrow> wifi_state \<Rightarrow> nat \<Rightarrow> nat" where
  "outstanding [] w n = n"
| "outstanding (RawSend sdk_result raw_data len # es) w n =
     outstanding es (wifi_do (RawSend sdk_result raw_data len) w)
       (if sdk_result = 0 then n + issued (RawSend sdk_result raw_data len) w else n)"
| "outstanding (TxComplete status # es) w n =
     outstanding es (wifi_do (TxComplete status) w) (n - 1)"

text \<open>
  The payload length \<open>wifi_promiscuous_rx_cb\<close> computes for a captured frame, and the
  length-prefixed packet it offers to the serial output: \<open>[LEN_HI][LEN_LO][payload]\<close>.
\<close>

definition payload_len_of :: "capture \<Rightarrow> u16" where
  "payload_len_of buf =
     (ucast (legacy_length (rx_ctrl buf)) :: u16) - of_nat IEEE80211_HEADER_SIZE - 4"

definition len_prefix_of :: "capture \<Rightarrow> u8 list" where
  "len_prefix_of buf =
     [ucast (drop_bit 8 (payload_len_of buf) AND 0xFF), ucast (payload_len_of buf AND 0xFF)]"

definition payload_of :: "capture \<Rightarrow> u8 list" where
  "payload_of buf = map (cap_payload buf) [0 ..< unat (payload_len_of buf)]"

text \<open>
  The frames that get past the four filters of the callback as the code applies them, the
  length test read over the integers: the reported frame length less header and trailer
  lies between 0 and \<open>MAX_PACKET_SIZE\<close>.
\<close>

definition passes_filters :: "capture \<Rightarrow> u16 \<Rightarrow> bool" where
  "passes_filters buf len \<longleftrightarrow>
     sig_mode (rx_ctrl buf) = 0 \<and>
     sizeof_RxControl + 28 \<le> unat len \<and>
     frame_control (cap_hdr buf) AND IEEE80211_FCTL_FTYPE = IEEE80211_FCTL_MGMT \<and>
     addr3 (cap_hdr buf) = CUSTOM_BSSID \<and>
     IEEE80211_HEADER_SIZE + 4 \<le> unat (legacy_length (rx_ctrl buf)) \<and>
     unat (legacy_length (rx_ctrl buf)) - (IEEE80211_HEADER_SIZE + 4) \<le> MAX_PACKET_SIZE"

text \<open>The free slots of the transmit ring.\<close>

definition tx_free :: "uart_state \<Rightarrow> nat" where
  "tx_free s = UART_TX_BUFFER_SIZE - 1 - length (tx_contents s)"

text \<open>The firmware after \<open>user_init\<close> and \<open>system_init_done\<close>, over arrays of zeros.\<close>

definition fw_boot :: firmware where
  "fw_boot =
     \<lparr>uart = uart_init, wifi = wifi_idle,
      packet_buffer = replicate MAX_PACKET_SIZE 0,
      pkt_expected = 0, pkt_received = 0,
      led_counter = 0, heartbeat_counter = 0, led_gpio = LED_OFF,
      packet_fault = False\<rparr>"

text \<open>The same with 1020 bytes waiting in the transmit ring: 3 free slots.\<close>

definition fw_nearly_full :: firmware where
  "fw_nearly_full = fw_boot\<lparr>uart := uart_init\<lparr>uart_tx_head := 1020\<rparr>\<rparr>"

text \<open>
  A captured probe-request frame with reported frame length \<open>ll\<close> and third address
  \<open>a3\<close>, received in legacy mode on channel 11 at -40 dBm, whose payload bytes count up
  from 0.
\<close>

definition example_capture :: "12 word \<Rightarrow> addr6 \<Rightarrow> capture" where
  "example_capture ll a3 =
     \<lparr>rx_ctrl = \<lparr>rssi = - 40, rate = 0, is_group = 1, sig_mode = 0, legacy_length = ll,
                 damatch0 = 0, damatch1 = 0, bssidmatch0 = 0, bssidmatch1 = 0,
                 MCS = 0, CWB = 0, HT_length = 0, Smoothing = 0, Not_Sounding = 0,
                 Aggregation = 0, STBC = 0, FEC_CODING = 0, SGI = 0,
                 rxend_state = 0, ampdu_cnt = 0, channel = 11\<rparr>,
      cap_hdr = \<lparr>frame_control = 0x0040, duration_id = 0, addr1 = BROADCAST_MAC,
                 addr2 = example_mac, addr3 = a3, seq_ctrl = 0\<rparr>,
      cap_payload = (\<lambda>i. of_nat i)\<rparr>"

text \<open>The firmware after boot once the receive interrupt has taken \<open>bytes\<close> from the FIFO.\<close>

definition fw_with_input :: "u8 list \<Rightarrow> firmware" where
  "fw_with_input bytes = uart_intr (True, bytes, False, []) fw_boot"

text \<open>The bytes a call of \<open>wifi_raw_send\<close> designates: the first \<open>len\<close> bytes of the array.\<close>

fun call_bytes :: "(u8 list \<times> u16) option \<Rightarrow> u8 list option" where
  "call_bytes None = None"
| "call_bytes (Some (raw_data, len)) = Some (take (unat len) raw_data)"

text \<open>The length prefix of the serial protocol: \<open>[LEN_HI][LEN_LO]\<close>, big-endian.\<close>

definition length_prefix :: "u16 \<Rightarrow> u8 list" where
  "length_prefix len = [ucast (drop_bit 8 len), ucast len]"

text \<open>
  The bridge between two ticks while the packet \<open>length_prefix len @ payload\<close> is
  arriving, \<open>q\<close> being the part of it the receive interrupt has delivered so far: as long
  as fewer than two bytes have come the bridge waits for the header and the ring holds
  them; afterwards it expects \<open>len\<close> bytes, has moved every payload byte delivered so
  far into \<open>packet_buffer\<close>, and the ring is empty.
\<close>

definition mid_packet :: "u16 \<Rightarrow> u8 list \<Rightarrow> u8 list \<Rightarrow> firmware \<Rightarrow> bool" where
  "mid_packet len payload q fw \<longleftrightarrow>
     uart_inv (uart fw) \<and> length (packet_buffer fw) = MAX_PACKET_SIZE \<and>
     (if length q < 2
      then pkt_expected fw = 0 \<and> rx_contents (uart fw) = q
      else pkt_expected fw = len \<and> unat (pkt_received fw) = length q - 2 \<and>
           take (length q - 2) (packet_buffer fw) = take (length q - 2) payload \<and>
           rx_contents (uart fw) = [])"

text \<open>The bridge at rest: waiting for a header, with nothing in the receive ring.\<close>

definition bridge_idle :: "firmware \<Rightarrow> bool" where
  "bridge_idle fw \<longleftrightarrow>
     uart_inv (uart fw) \<and> length (packet_buffer fw) = MAX_PACKET_SIZE \<and>
     pkt_expected fw = 0 \<and> rx_contents (uart fw) = []"

section \<open>Ring arithmetic\<close>

text \<open>
  Index arithmetic of a ring over an array of \<open>N\<close> cells, with \<open>(h + N - t) mod N\<close>
  the number of occupied cells.
\<close>

lemma mod_wrap:
  fixes x N :: nat
  shows "x < N \<Longrightarrow> x mod N = x" and "N \<le> x \<Longrightarrow> x < N + N \<Longrightarrow> x mod N = x - N"
  by (simp_all add: le_mod_geq)

lemma occ_suc: 
  fixes h t N :: nat
  assumes "h < N" "t < N" "Suc h mod N \<noteq> t"
  shows "(Suc h mod N + N - t) mod N = Suc ((h + N - t) mod N)"
proof (cases "Suc h < N")
  case True
  note T = this
  show ?thesis
  proof (cases "t \<le> h")
    case True
    then show ?thesis using assms T by (simp add: mod_wrap)
  next
    case False
    then show ?thesis using assms T by (simp add: mod_wrap)
  qed
next
  case False
  then have h: "Suc h = N" using assms by simp
  then have "Suc h mod N = 0" by simp
  then show ?thesis using assms h by (simp add: mod_wrap)
qed

lemma occ_pred:
  fixes h t N :: nat
  assumes "h < N" "t < N" "t \<noteq> h"
  shows "(h + N - t) mod N = Suc ((h + N - Suc t mod N) mod N)"
proof (cases "Suc t < N")
  case True
  note T = this
  show ?thesis
  proof (cases "t \<le> h")
    case True
    then show ?thesis using assms T by (simp add: mod_wrap)
  next
    case False
    then show ?thesis using assms T by (simp add: mod_wrap)
  qed
next
  case False
  then have h: "Suc t = N" using assms by simp
  then have "Suc t mod N = 0" by simp
  then show ?thesis using assms h by (simp add: mod_wrap)
qed

lemma occ_last:
  fixes h t N :: nat
  assumes "h < N" "t < N"
  shows "(t + (h + N - t) mod N) mod N = h"
proof (cases "t \<le> h")
  case True
  then show ?thesis using assms by (simp add: mod_wrap)
next
  case False
  then show ?thesis using assms by (simp add: mod_wrap)
qed

lemma occ_other:
  fixes h t N k :: nat
  assumes "h < N" "t < N" "k < (h + N - t) mod N"
  shows "(t + k) mod N \<noteq> h"
proof (cases "t \<le> h")
  case True
  then show ?thesis using assms by (simp add: mod_wrap)
next
  case False
  note F = this
  show ?thesis
  proof (cases "t + k < N")
    case True
    then show ?thesis using assms F by (simp add: mod_wrap)
  next
    case False
    then show ?thesis using assms F by (simp add: mod_wrap)
  qed
qed

lemma ring_length: "length (ring buf h t) = (h + length buf - t) mod length buf"
  by (simp add: ring_def)

lemma ring_push:
  assumes "h < length buf" "t < length buf" "Suc h mod length buf \<noteq> t"
  shows "ring (buf[h := b]) (Suc h mod length buf) t = ring buf h t @ [b]"
proof -
  let ?N = "length buf"
  let ?n = "(h + ?N - t) mod ?N"
  have "\<And>k. k < ?n \<Longrightarrow> (buf[h := b]) ! ((t + k) mod ?N) = buf ! ((t + k) mod ?N)"
  proof -
    fix k assume "k < ?n"
    then have "(t + k) mod ?N \<noteq> h" by (rule occ_other[OF assms(1,2)])
    then show "(buf[h := b]) ! ((t + k) mod ?N) = buf ! ((t + k) mod ?N)" by simp
  qed
  then have "map (\<lambda>k. (buf[h := b]) ! ((t + k) mod ?N)) [0..<?n] = map (\<lambda>k. buf ! ((t + k) mod ?N)) [0..<?n]"
    by simp
  moreover have "(buf[h := b]) ! ((t + ?n) mod ?N) = b"
    using occ_last[OF assms(1,2)] assms(1) by simp
  ultimately show ?thesis
    unfolding ring_def by (simp add: occ_suc[OF assms])
qed

lemma ring_pop:
  assumes "h < length buf" "t < length buf" "t \<noteq> h"
  shows "ring buf h t = buf ! t # ring buf h (Suc t mod length buf)"
proof -
  let ?N = "length buf"
  let ?n = "(h + ?N - Suc t mod ?N) mod ?N"
  let ?f = "\<lambda>k. buf ! ((t + k) mod ?N)"
  have sh: "(t + Suc k) mod ?N = (Suc t mod ?N + k) mod ?N" for k
  proof -
    have "(Suc t mod ?N + k) mod ?N = (Suc t + k) mod ?N" by (rule mod_add_left_eq)
    then show ?thesis by simp
  qed
  have "ring buf h t = map ?f [0..<Suc ?n]"
    unfolding ring_def occ_pred[OF assms] ..
  also have "\<dots> = ?f 0 # map (\<lambda>k. ?f (Suc k)) [0..<?n]"
    by (rule map_upt_Suc)
  also have "?f 0 = buf ! t" using assms(2) by simp
  also have "map (\<lambda>k. ?f (Suc k)) [0..<?n] = ring buf h (Suc t mod ?N)"
    unfolding ring_def sh ..
  finally show ?thesis .
qed


lemma occ_full:
  fixes h t N :: nat
  assumes "h < N" "t < N"
  shows "(Suc h mod N = t) = ((h + N - t) mod N = N - 1)"
proof (cases "Suc h < N")
  case True
  note T = this
  show ?thesis
  proof (cases "t \<le> h")
    case True
    then show ?thesis using assms T by (simp add: mod_wrap)
  next
    case False
    then show ?thesis using assms T by (simp add: mod_wrap; arith)
  qed
next
  case False
  then have h: "Suc h = N" using assms by simp
  then have "Suc h mod N = 0" by simp
  then show ?thesis using assms h by (simp add: mod_wrap; arith)
qed

lemma occ_empty:
  fixes h t N :: nat
  assumes "h < N" "t < N"
  shows "(h = t) = ((h + N - t) mod N = 0)"
proof (cases "t \<le> h")
  case True
  then show ?thesis using assms by (simp add: mod_wrap; arith)
next
  case False
  then show ?thesis using assms by (simp add: mod_wrap)
qed

lemma unat_RX_INCREMENT: "unat (RX_INCREMENT i) = Suc (unat i) mod UART_RX_BUFFER_SIZE"
proof -
  have "RX_INCREMENT i = take_bit 10 (i + 1)"
    by (simp add: RX_INCREMENT_def RX_BUFFER_MASK_def UART_RX_BUFFER_SIZE_def take_bit_eq_mask mask_eq_exp_minus_1)
  then have "unat (RX_INCREMENT i) = unat (i + 1) mod 1024"
    by (simp add: unsigned_take_bit_eq take_bit_eq_mod unat_mod)
  also have "\<dots> = ((unat i + 1) mod 65536) mod 1024"
    by (simp add: unat_word_ariths)
  also have "\<dots> = (unat i + 1) mod 1024"
    by (simp add: mod_mod_cancel)
  finally show ?thesis by (simp add: UART_RX_BUFFER_SIZE_def)
qed

lemma unat_TX_INCREMENT: "unat (TX_INCREMENT i) = Suc (unat i) mod UART_TX_BUFFER_SIZE"
proof -
  have "TX_INCREMENT i = RX_INCREMENT i"
    by (simp add: TX_INCREMENT_def RX_INCREMENT_def TX_BUFFER_MASK_def RX_BUFFER_MASK_def
        UART_TX_BUFFER_SIZE_def UART_RX_BUFFER_SIZE_def)
  then show ?thesis
    by (simp add: unat_RX_INCREMENT UART_TX_BUFFER_SIZE_def UART_RX_BUFFER_SIZE_def)
qed

section \<open>The ring operations on the bytes held\<close>

lemma buffer_sizes_pos: "0 < UART_RX_BUFFER_SIZE" "0 < UART_TX_BUFFER_SIZE"
  by (simp_all add: UART_RX_BUFFER_SIZE_def UART_TX_BUFFER_SIZE_def)

lemma rx_contents_length:
  "length (rx_contents s) =
     (unat (uart_rx_head s) + length (uart_rx_buffer s) - unat (uart_rx_tail s))
       mod length (uart_rx_buffer s)"
  by (simp add: rx_contents_def ring_length)

lemma tx_contents_length:
  "length (tx_contents s) =
     (unat (uart_tx_head s) + length (uart_tx_buffer s) - unat (uart_tx_tail s))
       mod length (uart_tx_buffer s)"
  by (simp add: tx_contents_def ring_length)

lemma rx_contents_bound: "uart_inv s \<Longrightarrow> length (rx_contents s) < UART_RX_BUFFER_SIZE"
  by (simp add: rx_contents_length uart_inv_def buffer_sizes_pos)

lemma tx_contents_bound: "uart_inv s \<Longrightarrow> length (tx_contents s) < UART_TX_BUFFER_SIZE"
  by (simp add: tx_contents_length uart_inv_def buffer_sizes_pos)

lemma rx_full_iff:
  assumes "uart_inv s"
  shows "(RX_INCREMENT (uart_rx_head s) = uart_rx_tail s) =
         (length (rx_contents s) = UART_RX_BUFFER_SIZE - 1)"
proof -
  have "(RX_INCREMENT (uart_rx_head s) = uart_rx_tail s) =
        (Suc (unat (uart_rx_head s)) mod UART_RX_BUFFER_SIZE = unat (uart_rx_tail s))"
    by (simp add: word_unat_eq_iff unat_RX_INCREMENT)
  also have "\<dots> = ((unat (uart_rx_head s) + UART_RX_BUFFER_SIZE - unat (uart_rx_tail s))
                      mod UART_RX_BUFFER_SIZE = UART_RX_BUFFER_SIZE - 1)"
    using assms by (intro occ_full) (simp_all add: uart_inv_def)
  finally show ?thesis using assms by (simp add: rx_contents_length uart_inv_def)
qed

lemma rx_empty_iff:
  assumes "uart_inv s"
  shows "(uart_rx_tail s = uart_rx_head s) = (rx_contents s = [])"
proof -
  have "(uart_rx_tail s = uart_rx_head s) = (unat (uart_rx_head s) = unat (uart_rx_tail s))"
    by (auto simp: word_unat_eq_iff)
  also have "\<dots> = ((unat (uart_rx_head s) + UART_RX_BUFFER_SIZE - unat (uart_rx_tail s))
                      mod UART_RX_BUFFER_SIZE = 0)"
    using assms by (intro occ_empty) (simp_all add: uart_inv_def)
  also have "\<dots> = (length (rx_contents s) = 0)"
    using assms by (simp add: rx_contents_length uart_inv_def)
  finally show ?thesis by simp
qed

lemma rx_push_one:
  fixes b :: u8
  assumes "uart_inv s" "RX_INCREMENT (uart_rx_head s) \<noteq> uart_rx_tail s"
  defines "s' \<equiv> s\<lparr>uart_rx_buffer := (uart_rx_buffer s)[unat (uart_rx_head s) := b],
                   uart_rx_head := RX_INCREMENT (uart_rx_head s)\<rparr>"
  shows "rx_contents s' = rx_contents s @ [b]" and "uart_inv s'"
proof -
  let ?buf = "uart_rx_buffer s"
  have len: "length ?buf = UART_RX_BUFFER_SIZE"
    and h: "unat (uart_rx_head s) < length ?buf"
    and t: "unat (uart_rx_tail s) < length ?buf"
    using assms(1) by (simp_all add: uart_inv_def)
  have ne: "Suc (unat (uart_rx_head s)) mod length ?buf \<noteq> unat (uart_rx_tail s)"
    using assms(2) by (simp add: word_unat_eq_iff unat_RX_INCREMENT len)
  show "rx_contents s' = rx_contents s @ [b]"
    using ring_push[OF h t ne, of b]
    by (simp add: s'_def rx_contents_def unat_RX_INCREMENT len)
  show "uart_inv s'"
    using assms(1) by (simp add: s'_def uart_inv_def unat_RX_INCREMENT buffer_sizes_pos)
qed

lemma rx_pop_one:
  assumes "uart_inv s" "uart_rx_tail s \<noteq> uart_rx_head s"
  defines "s' \<equiv> s\<lparr>uart_rx_tail := RX_INCREMENT (uart_rx_tail s)\<rparr>"
  shows "rx_contents s = uart_rx_buffer s ! unat (uart_rx_tail s) # rx_contents s'"
    and "uart_inv s'"
proof -
  let ?buf = "uart_rx_buffer s"
  have len: "length ?buf = UART_RX_BUFFER_SIZE"
    and h: "unat (uart_rx_head s) < length ?buf"
    and t: "unat (uart_rx_tail s) < length ?buf"
    using assms(1) by (simp_all add: uart_inv_def)
  have ne: "unat (uart_rx_tail s) \<noteq> unat (uart_rx_head s)"
    using assms(2) by (simp add: word_unat_eq_iff)
  show "rx_contents s = uart_rx_buffer s ! unat (uart_rx_tail s) # rx_contents s'"
    using ring_pop[OF h t ne]
    by (simp add: s'_def rx_contents_def unat_RX_INCREMENT len)
  show "uart_inv s'"
    using assms(1) by (simp add: s'_def uart_inv_def unat_RX_INCREMENT buffer_sizes_pos)
qed

lemma tx_full_iff:
  assumes "uart_inv s"
  shows "(TX_INCREMENT (uart_tx_head s) = uart_tx_tail s) =
         (length (tx_contents s) = UART_TX_BUFFER_SIZE - 1)"
proof -
  have "(TX_INCREMENT (uart_tx_head s) = uart_tx_tail s) =
        (Suc (unat (uart_tx_head s)) mod UART_TX_BUFFER_SIZE = unat (uart_tx_tail s))"
    by (simp add: word_unat_eq_iff unat_TX_INCREMENT)
  also have "\<dots> = ((unat (uart_tx_head s) + UART_TX_BUFFER_SIZE - unat (uart_tx_tail s))
                      mod UART_TX_BUFFER_SIZE = UART_TX_BUFFER_SIZE - 1)"
    using assms by (intro occ_full) (simp_all add: uart_inv_def)
  finally show ?thesis using assms by (simp add: tx_contents_length uart_inv_def)
qed

lemma tx_empty_iff:
  assumes "uart_inv s"
  shows "(uart_tx_tail s = uart_tx_head s) = (tx_contents s = [])"
proof -
  have "(uart_tx_tail s = uart_tx_head s) = (unat (uart_tx_head s) = unat (uart_tx_tail s))"
    by (auto simp: word_unat_eq_iff)
  also have "\<dots> = ((unat (uart_tx_head s) + UART_TX_BUFFER_SIZE - unat (uart_tx_tail s))
                      mod UART_TX_BUFFER_SIZE = 0)"
    using assms by (intro occ_empty) (simp_all add: uart_inv_def)
  also have "\<dots> = (length (tx_contents s) = 0)"
    using assms by (simp add: tx_contents_length uart_inv_def)
  finally show ?thesis by simp
qed

lemma tx_push_one:
  fixes b :: u8
  assumes "uart_inv s" "TX_INCREMENT (uart_tx_head s) \<noteq> uart_tx_tail s"
  defines "s' \<equiv> s\<lparr>uart_tx_buffer := (uart_tx_buffer s)[unat (uart_tx_head s) := b],
                   uart_tx_head := TX_INCREMENT (uart_tx_head s)\<rparr>"
  shows "tx_contents s' = tx_contents s @ [b]" and "uart_inv s'"
proof -
  let ?buf = "uart_tx_buffer s"
  have len: "length ?buf = UART_TX_BUFFER_SIZE"
    and h: "unat (uart_tx_head s) < length ?buf"
    and t: "unat (uart_tx_tail s) < length ?buf"
    using assms(1) by (simp_all add: uart_inv_def)
  have ne: "Suc (unat (uart_tx_head s)) mod length ?buf \<noteq> unat (uart_tx_tail s)"
    using assms(2) by (simp add: word_unat_eq_iff unat_TX_INCREMENT len)
  show "tx_contents s' = tx_contents s @ [b]"
    using ring_push[OF h t ne, of b]
    by (simp add: s'_def tx_contents_def unat_TX_INCREMENT len)
  show "uart_inv s'"
    using assms(1) by (simp add: s'_def uart_inv_def unat_TX_INCREMENT buffer_sizes_pos)
qed

lemma tx_pop_one:
  assumes "uart_inv s" "uart_tx_tail s \<noteq> uart_tx_head s"
  defines "s' \<equiv> s\<lparr>uart_tx_tail := TX_INCREMENT (uart_tx_tail s)\<rparr>"
  shows "tx_contents s = uart_tx_buffer s ! unat (uart_tx_tail s) # tx_contents s'"
    and "uart_inv s'"
proof -
  let ?buf = "uart_tx_buffer s"
  have len: "length ?buf = UART_TX_BUFFER_SIZE"
    and h: "unat (uart_tx_head s) < length ?buf"
    and t: "unat (uart_tx_tail s) < length ?buf"
    using assms(1) by (simp_all add: uart_inv_def)
  have ne: "unat (uart_tx_tail s) \<noteq> unat (uart_tx_head s)"
    using assms(2) by (simp add: word_unat_eq_iff)
  show "tx_contents s = uart_tx_buffer s ! unat (uart_tx_tail s) # tx_contents s'"
    using ring_pop[OF h t ne]
    by (simp add: s'_def tx_contents_def unat_TX_INCREMENT len)
  show "uart_inv s'"
    using assms(1) by (simp add: s'_def uart_inv_def unat_TX_INCREMENT buffer_sizes_pos)
qed

lemma rx_fifo_loop_frame:
  "uart_rx_tail (rx_fifo_loop bs s) = uart_rx_tail s \<and>
   uart_tx_buffer (rx_fifo_loop bs s) = uart_tx_buffer s \<and>
   uart_tx_head (rx_fifo_loop bs s) = uart_tx_head s \<and>
   uart_tx_tail (rx_fifo_loop bs s) = uart_tx_tail s \<and>
   uart_tx_overflow_count (rx_fifo_loop bs s) = uart_tx_overflow_count s \<and>
   uart_fifo (rx_fifo_loop bs s) = uart_fifo s \<and>
   txfifo_empty_int_ena (rx_fifo_loop bs s) = txfifo_empty_int_ena s"
  by (induction bs arbitrary: s) (simp_all add: Let_def)

lemma rx_fifo_loop_run:
  assumes "uart_inv s"
  shows "rx_contents (rx_fifo_loop bs s) =
           rx_contents s @ take (UART_RX_BUFFER_SIZE - 1 - length (rx_contents s)) bs \<and>
         uart_inv (rx_fifo_loop bs s)"
  using assms
proof (induction bs arbitrary: s)
  case Nil
  then show ?case by simp
next
  case (Cons b bs)
  show ?case
  proof (cases "RX_INCREMENT (uart_rx_head s) = uart_rx_tail s")
    case True
    let ?s' = "s\<lparr>uart_rx_overflow_count := uart_rx_overflow_count s + 1\<rparr>"
    have full: "length (rx_contents s) = UART_RX_BUFFER_SIZE - 1"
      using True rx_full_iff[OF Cons.prems] by simp
    have c: "rx_contents ?s' = rx_contents s" by (simp add: rx_contents_def)
    have i: "uart_inv ?s'" using Cons.prems by (simp add: uart_inv_def)
    show ?thesis using Cons.IH[OF i] True full c by simp
  next
    case False
    let ?s' = "s\<lparr>uart_rx_buffer := (uart_rx_buffer s)[unat (uart_rx_head s) := b],
                   uart_rx_head := RX_INCREMENT (uart_rx_head s)\<rparr>"
    have nfull: "length (rx_contents s) < UART_RX_BUFFER_SIZE - 1"
      using False rx_full_iff[OF Cons.prems] rx_contents_bound[OF Cons.prems] by simp
    then obtain m where m: "UART_RX_BUFFER_SIZE - 1 - length (rx_contents s) = Suc m"
      by (metis Suc_diff_Suc)
    have c: "rx_contents ?s' = rx_contents s @ [b]"
      and i: "uart_inv ?s'"
      using rx_push_one[OF Cons.prems False] by simp_all
    have m': "UART_RX_BUFFER_SIZE - 1 - length (rx_contents ?s') = m"
      using m c by simp
    show ?thesis using Cons.IH[OF i] False m m' c by simp
  qed
qed

lemma read_loop_frame:
  "uart_rx_buffer (snd (read_loop n s)) = uart_rx_buffer s \<and>
   uart_rx_head (snd (read_loop n s)) = uart_rx_head s \<and>
   uart_rx_overflow_count (snd (read_loop n s)) = uart_rx_overflow_count s \<and>
   uart_tx_buffer (snd (read_loop n s)) = uart_tx_buffer s \<and>
   uart_tx_head (snd (read_loop n s)) = uart_tx_head s \<and>
   uart_tx_tail (snd (read_loop n s)) = uart_tx_tail s \<and>
   uart_tx_overflow_count (snd (read_loop n s)) = uart_tx_overflow_count s \<and>
   uart_fifo (snd (read_loop n s)) = uart_fifo s \<and>
   txfifo_empty_int_ena (snd (read_loop n s)) = txfifo_empty_int_ena s"
  by (induction n arbitrary: s) (simp_all add: split_beta Let_def)

lemma read_loop_run:
  assumes "uart_inv s"
  shows "fst (read_loop n s) = take n (rx_contents s) \<and>
         rx_contents (snd (read_loop n s)) = drop n (rx_contents s) \<and>
         uart_inv (snd (read_loop n s))"
  using assms
proof (induction n arbitrary: s)
  case 0
  then show ?case by simp
next
  case (Suc n)
  show ?case
  proof (cases "uart_rx_tail s = uart_rx_head s")
    case True
    then have "rx_contents s = []" using rx_empty_iff[OF Suc.prems] by simp
    then show ?thesis using True Suc.prems by simp
  next
    case False
    let ?s' = "s\<lparr>uart_rx_tail := RX_INCREMENT (uart_rx_tail s)\<rparr>"
    have c: "rx_contents s = uart_rx_buffer s ! unat (uart_rx_tail s) # rx_contents ?s'"
      and i: "uart_inv ?s'"
      using rx_pop_one[OF Suc.prems False] by simp_all
    show ?thesis using Suc.IH[OF i] False
      by (simp add: split_beta Let_def) (simp add: c)
  qed
qed

lemma write_loop_frame:
  "uart_rx_buffer (snd (write_loop data s)) = uart_rx_buffer s \<and>
   uart_rx_head (snd (write_loop data s)) = uart_rx_head s \<and>
   uart_rx_tail (snd (write_loop data s)) = uart_rx_tail s \<and>
   uart_rx_overflow_count (snd (write_loop data s)) = uart_rx_overflow_count s \<and>
   uart_tx_tail (snd (write_loop data s)) = uart_tx_tail s \<and>
   uart_fifo (snd (write_loop data s)) = uart_fifo s \<and>
   txfifo_empty_int_ena (snd (write_loop data s)) = txfifo_empty_int_ena s"
  by (induction data arbitrary: s) (simp_all add: split_beta Let_def)

lemma write_loop_free:
  assumes "uart_inv s" "f = UART_TX_BUFFER_SIZE - 1 - length (tx_contents s)"
  shows "fst (write_loop data s) = min (length data) f \<and>
         tx_contents (snd (write_loop data s)) = tx_contents s @ take f data \<and>
         uart_tx_overflow_count (snd (write_loop data s)) =
           (if f < length data then uart_tx_overflow_count s + 1
            else uart_tx_overflow_count s) \<and>
         uart_inv (snd (write_loop data s))"
  using assms
proof (induction data arbitrary: s f)
  case Nil
  then show ?case by simp
next
  case (Cons d data)
  show ?case
  proof (cases "TX_INCREMENT (uart_tx_head s) = uart_tx_tail s")
    case True
    have full: "f = 0"
      using True tx_full_iff[OF Cons.prems(1)] Cons.prems(2) by simp
    have i: "uart_inv (s\<lparr>uart_tx_overflow_count := uart_tx_overflow_count s + 1\<rparr>)"
      using Cons.prems(1) by (simp add: uart_inv_def)
    have c: "tx_contents (s\<lparr>uart_tx_overflow_count := uart_tx_overflow_count s + 1\<rparr>)
             = tx_contents s"
      by (simp add: tx_contents_def)
    show ?thesis using True full i c by simp
  next
    case False
    let ?s' = "s\<lparr>uart_tx_buffer := (uart_tx_buffer s)[unat (uart_tx_head s) := d],
                   uart_tx_head := TX_INCREMENT (uart_tx_head s)\<rparr>"
    have nfull: "length (tx_contents s) < UART_TX_BUFFER_SIZE - 1"
      using False tx_full_iff[OF Cons.prems(1)] tx_contents_bound[OF Cons.prems(1)] by simp
    then obtain m where m: "f = Suc m"
      using Cons.prems(2) by (metis Suc_diff_Suc)
    have c: "tx_contents ?s' = tx_contents s @ [d]"
      and i: "uart_inv ?s'"
      using tx_push_one[OF Cons.prems(1) False] by simp_all
    have m': "m = UART_TX_BUFFER_SIZE - 1 - length (tx_contents ?s')"
      using m c Cons.prems(2) by simp
    have o: "uart_tx_overflow_count ?s' = uart_tx_overflow_count s" by simp
    show ?thesis using Cons.IH[OF i m'] False
      by (simp add: split_beta Let_def m c del: One_nat_def)
  qed
qed

lemmas write_loop_run = write_loop_free[OF _ refl]

lemma tx_fifo_loop_frame:
  "uart_rx_buffer (tx_fifo_loop n s) = uart_rx_buffer s \<and>
   uart_rx_head (tx_fifo_loop n s) = uart_rx_head s \<and>
   uart_rx_tail (tx_fifo_loop n s) = uart_rx_tail s \<and>
   uart_rx_overflow_count (tx_fifo_loop n s) = uart_rx_overflow_count s \<and>
   uart_tx_buffer (tx_fifo_loop n s) = uart_tx_buffer s \<and>
   uart_tx_head (tx_fifo_loop n s) = uart_tx_head s \<and>
   uart_tx_overflow_count (tx_fifo_loop n s) = uart_tx_overflow_count s \<and>
   txfifo_empty_int_ena (tx_fifo_loop n s) = txfifo_empty_int_ena s"
  by (induction n arbitrary: s) simp_all

lemma tx_fifo_loop_run:
  assumes "uart_inv s"
  shows "uart_fifo (tx_fifo_loop n s) = uart_fifo s @ take n (tx_contents s) \<and>
         tx_contents (tx_fifo_loop n s) = drop n (tx_contents s) \<and>
         uart_inv (tx_fifo_loop n s)"
  using assms
proof (induction n arbitrary: s)
  case 0
  then show ?case by simp
next
  case (Suc n)
  show ?case
  proof (cases "uart_tx_tail s = uart_tx_head s")
    case True
    then have "tx_contents s = []" using tx_empty_iff[OF Suc.prems] by simp
    then show ?thesis using True Suc.prems by simp
  next
    case False
    let ?s' = "s\<lparr>uart_tx_tail := TX_INCREMENT (uart_tx_tail s)\<rparr>"
    let ?s'' = "s\<lparr>uart_fifo := uart_fifo s @ [uart_tx_buffer s ! unat (uart_tx_tail s)],
                    uart_tx_tail := TX_INCREMENT (uart_tx_tail s)\<rparr>"
    have c: "tx_contents s = uart_tx_buffer s ! unat (uart_tx_tail s) # tx_contents ?s'"
      and i: "uart_inv ?s'"
      using tx_pop_one[OF Suc.prems False] by simp_all
    have c': "tx_contents ?s'' = tx_contents ?s'" by (simp add: tx_contents_def)
    have i': "uart_inv ?s''" using i by (simp add: uart_inv_def)
    show ?thesis using Suc.IH[OF i'] False c'
      by simp (simp add: c)
  qed
qed

section \<open>The transmit path of the driver\<close>

lemma tx_handler_frame:
  "uart_rx_buffer (uart0_tx_intr_handler e s) = uart_rx_buffer s \<and>
   uart_rx_head (uart0_tx_intr_handler e s) = uart_rx_head s \<and>
   uart_rx_tail (uart0_tx_intr_handler e s) = uart_rx_tail s \<and>
   uart_rx_overflow_count (uart0_tx_intr_handler e s) = uart_rx_overflow_count s \<and>
   uart_tx_buffer (uart0_tx_intr_handler e s) = uart_tx_buffer s \<and>
   uart_tx_head (uart0_tx_intr_handler e s) = uart_tx_head s \<and>
   uart_tx_overflow_count (uart0_tx_intr_handler e s) = uart_tx_overflow_count s"
  by (simp add: uart0_tx_intr_handler_def Let_def tx_fifo_loop_frame)

lemma tx_handler_run:
  assumes "uart_inv s"
  shows "uart_fifo (uart0_tx_intr_handler e s) =
           uart_fifo s @ take (if e then 128 else 0) (tx_contents s) \<and>
         tx_contents (uart0_tx_intr_handler e s) =
           drop (if e then 128 else 0) (tx_contents s) \<and>
         uart_inv (uart0_tx_intr_handler e s)"
proof (cases e)
  case True
  let ?s1 = "tx_fifo_loop 128 s"
  have r: "uart_fifo ?s1 = uart_fifo s @ take 128 (tx_contents s)"
    "tx_contents ?s1 = drop 128 (tx_contents s)" "uart_inv ?s1"
    using tx_fifo_loop_run[OF assms, of 128] by simp_all
  have c: "tx_contents (?s1\<lparr>txfifo_empty_int_ena := False\<rparr>) = tx_contents ?s1"
    by (simp add: tx_contents_def)
  have i: "uart_inv (?s1\<lparr>txfifo_empty_int_ena := False\<rparr>)"
    using r(3) by (simp add: uart_inv_def)
  show ?thesis using True r c i
    by (simp add: uart0_tx_intr_handler_def Let_def)
next
  case False
  then show ?thesis using assms by (simp add: uart0_tx_intr_handler_def)
qed

lemma uart_write_bytes_frame:
  "uart_rx_buffer (snd (uart_write_bytes e data s)) = uart_rx_buffer s \<and>
   uart_rx_head (snd (uart_write_bytes e data s)) = uart_rx_head s \<and>
   uart_rx_tail (snd (uart_write_bytes e data s)) = uart_rx_tail s \<and>
   uart_rx_overflow_count (snd (uart_write_bytes e data s)) = uart_rx_overflow_count s"
  by (simp add: uart_write_bytes_def split_beta Let_def tx_handler_frame write_loop_frame)

lemma uart_write_bytes_run:
  assumes "uart_inv s" "f = UART_TX_BUFFER_SIZE - 1 - length (tx_contents s)"
  shows "fst (uart_write_bytes e data s) = min (length data) f \<and>
         uart_fifo (snd (uart_write_bytes e data s)) =
           uart_fifo s @ take (if e then 128 else 0) (tx_contents s @ take f data) \<and>
         tx_contents (snd (uart_write_bytes e data s)) =
           drop (if e then 128 else 0) (tx_contents s @ take f data) \<and>
         uart_tx_overflow_count (snd (uart_write_bytes e data s)) =
           (if f < length data then uart_tx_overflow_count s + 1
            else uart_tx_overflow_count s) \<and>
         uart_tx_buffer (snd (uart_write_bytes e data s)) =
           uart_tx_buffer (snd (write_loop data s)) \<and>
         uart_tx_head (snd (uart_write_bytes e data s)) =
           uart_tx_head (snd (write_loop data s)) \<and>
         uart_inv (snd (uart_write_bytes e data s))"
proof -
  let ?s1 = "snd (write_loop data s)"
  let ?s1' = "?s1\<lparr>txfifo_empty_int_ena := True\<rparr>"
  have w: "fst (write_loop data s) = min (length data) f"
    "tx_contents ?s1 = tx_contents s @ take f data"
    "uart_tx_overflow_count ?s1 =
       (if f < length data then uart_tx_overflow_count s + 1 else uart_tx_overflow_count s)"
    "uart_inv ?s1"
    using write_loop_free[OF assms, of data] by simp_all
  have fifo1: "uart_fifo ?s1 = uart_fifo s" by (simp add: write_loop_frame)
  have c': "tx_contents ?s1' = tx_contents ?s1" by (simp add: tx_contents_def)
  have i': "uart_inv ?s1'" using w(4) by (simp add: uart_inv_def)
  note h = tx_handler_run[OF i', of e] tx_handler_frame[of e ?s1']
  show ?thesis
  proof (cases "uart_tx_tail ?s1 = uart_tx_head ?s1")
    case True
    then have e1: "tx_contents ?s1 = []" using tx_empty_iff[OF w(4)] by simp
    then have e0: "tx_contents s = []" "take f data = []" using w(2) by simp_all
    show ?thesis using True w(1,3,4) fifo1
      by (simp add: uart_write_bytes_def split_beta Let_def e0 e1)
  next
    case False
    then show ?thesis using w fifo1 h c'
      by (simp add: uart_write_bytes_def split_beta Let_def)
  qed
qed

section \<open>Overflow of the transmit ring\<close>

lemma tx_full_state_inv: "uart_inv tx_full_state"
  by (simp add: uart_inv_def tx_full_state_def uart_init_def UART_RX_BUFFER_SIZE_def
      UART_TX_BUFFER_SIZE_def)

lemma tx_full_state_free:
  "UART_TX_BUFFER_SIZE - 1 - length (tx_contents tx_full_state) = 0"
  by (simp add: tx_contents_length tx_full_state_def uart_init_def UART_TX_BUFFER_SIZE_def)

text \<open>
  C3, as amended.  A call of \<open>uart_write_bytes\<close> that offers more bytes than the \<open>f\<close>
  free slots of the transmit ring accepts exactly the first \<open>f\<close> bytes; the cells from
  the old read index on hold the bytes buffered before, unchanged, followed by the accepted
  ones; the bytes already passed to the UART FIFO followed by the bytes held are the old
  ones followed by the accepted ones; and \<open>uart_tx_overflow_count\<close> goes up by exactly 1,
  whatever the excess.
\<close>

theorem uart_write_bytes_overflow:
  assumes "uart_inv s"
    and "f = UART_TX_BUFFER_SIZE - 1 - length (tx_contents s)"
    and "f < length data"
  shows "fst (uart_write_bytes empty_st data s) = f \<and>
         ring (uart_tx_buffer (snd (uart_write_bytes empty_st data s)))
              (unat (uart_tx_head (snd (uart_write_bytes empty_st data s))))
              (unat (uart_tx_tail s))
           = tx_contents s @ take f data \<and>
         uart_fifo (snd (uart_write_bytes empty_st data s)) @
           tx_contents (snd (uart_write_bytes empty_st data s))
           = uart_fifo s @ tx_contents s @ take f data \<and>
         uart_tx_overflow_count (snd (uart_write_bytes empty_st data s))
           = uart_tx_overflow_count s + 1"
proof -
  let ?s1 = "snd (write_loop data s)"
  let ?s2 = "snd (uart_write_bytes empty_st data s)"
  note r = uart_write_bytes_run[OF assms(1,2), of empty_st data]
  have "tx_contents ?s1 = tx_contents s @ take f data"
    using write_loop_free[OF assms(1,2), of data] by simp
  moreover have "uart_tx_tail ?s1 = uart_tx_tail s" by (simp add: write_loop_frame)
  ultimately have cells:
    "ring (uart_tx_buffer ?s2) (unat (uart_tx_head ?s2)) (unat (uart_tx_tail s))
       = tx_contents s @ take f data"
    using r by (simp add: tx_contents_def)
  have "fst (uart_write_bytes empty_st data s) = f" using r assms(3) by simp
  moreover have "uart_fifo ?s2 @ tx_contents ?s2 = uart_fifo s @ tx_contents s @ take f data"
    by (simp only: r[THEN conjunct2, THEN conjunct1]
        r[THEN conjunct2, THEN conjunct2, THEN conjunct1] append_assoc append_take_drop_id)
  moreover have "uart_tx_overflow_count ?s2 = uart_tx_overflow_count s + 1"
    using r assms(3) by simp
  ultimately show ?thesis using cells by simp
qed

text \<open>
  The hypotheses of C3 hold on a full ring offered two bytes: nothing is accepted and the
  counter goes up by 1.
\<close>

theorem uart_write_bytes_overflow_witness:
  "uart_inv tx_full_state \<and>
   0 = UART_TX_BUFFER_SIZE - 1 - length (tx_contents tx_full_state) \<and>
   0 < length [1, 2 :: u8] \<and>
   fst (uart_write_bytes False [1, 2] tx_full_state) = 0 \<and>
   uart_tx_overflow_count (snd (uart_write_bytes False [1, 2] tx_full_state))
     = uart_tx_overflow_count tx_full_state + 1"
proof -
  have f: "0 = UART_TX_BUFFER_SIZE - 1 - length (tx_contents tx_full_state)"
    using tx_full_state_free by simp
  have l: "0 < length [1, 2 :: u8]" by simp
  show ?thesis
    using uart_write_bytes_overflow[OF tx_full_state_inv f l, of False] tx_full_state_inv f
    by simp
qed

text \<open>
  C3 as stated fails there: the excess is 2, the counter does not go up by 2.
\<close>

theorem uart_write_bytes_excess_counterexample:
  "uart_inv tx_full_state \<and>
   UART_TX_BUFFER_SIZE - 1 - length (tx_contents tx_full_state) = 0 \<and>
   length [1, 2 :: u8] - 0 = 2 \<and>
   uart_tx_overflow_count (snd (uart_write_bytes False [1, 2] tx_full_state))
     \<noteq> uart_tx_overflow_count tx_full_state + 2"
proof -
  have "uart_tx_overflow_count (snd (uart_write_bytes False [1, 2] tx_full_state)) = 1"
    by (simp add: uart_write_bytes_def uart0_tx_intr_handler_def TX_INCREMENT_def
        TX_BUFFER_MASK_def UART_TX_BUFFER_SIZE_def tx_full_state_def uart_init_def)
  moreover have "uart_tx_overflow_count tx_full_state = 0"
    by (simp add: tx_full_state_def uart_init_def)
  ultimately show ?thesis using tx_full_state_inv tx_full_state_free by simp
qed

section \<open>The receive path of the driver and the two rings as queues\<close>

subsection \<open>Refinement of the bounded FIFO queue\<close>

lemma rx_handler_run:
  assumes "uart_inv s"
  shows "rx_contents (uart0_rx_intr_handler full_st fifo_full tout_st fifo_tout s) =
           rx_queue (snd (fifo_do (RxIntr full_st fifo_full tout_st fifo_tout) (abs_uart s))) \<and>
         tx_contents (uart0_rx_intr_handler full_st fifo_full tout_st fifo_tout s) =
           tx_contents s \<and>
         uart_fifo (uart0_rx_intr_handler full_st fifo_full tout_st fifo_tout s) =
           uart_fifo s \<and>
         uart_inv (uart0_rx_intr_handler full_st fifo_full tout_st fifo_tout s)"
proof -
  let ?s1 = "if full_st then rx_fifo_loop fifo_full s else s"
  have one: "rx_contents ?s1 =
               (if full_st
                then snd (fifo_write (UART_RX_BUFFER_SIZE - 1) fifo_full (rx_contents s))
                else rx_contents s)"
    and i1: "uart_inv ?s1"
    using rx_fifo_loop_run[OF assms, of fifo_full] assms by (simp_all add: fifo_write_def)
  have two: "rx_contents (if tout_st then rx_fifo_loop fifo_tout ?s1 else ?s1) =
               (if tout_st
                then snd (fifo_write (UART_RX_BUFFER_SIZE - 1) fifo_tout (rx_contents ?s1))
                else rx_contents ?s1)"
    and i2: "uart_inv (if tout_st then rx_fifo_loop fifo_tout ?s1 else ?s1)"
    using rx_fifo_loop_run[OF i1, of fifo_tout] i1 by (simp_all add: fifo_write_def)
  have tx: "tx_contents (uart0_rx_intr_handler full_st fifo_full tout_st fifo_tout s)
              = tx_contents s"
    by (simp add: uart0_rx_intr_handler_def Let_def tx_contents_def rx_fifo_loop_frame)
  have ff: "uart_fifo (uart0_rx_intr_handler full_st fifo_full tout_st fifo_tout s)
              = uart_fifo s"
    by (simp add: uart0_rx_intr_handler_def Let_def rx_fifo_loop_frame)
  have "rx_contents (uart0_rx_intr_handler full_st fifo_full tout_st fifo_tout s) =
          rx_queue (snd (fifo_do (RxIntr full_st fifo_full tout_st fifo_tout) (abs_uart s)))"
    unfolding uart0_rx_intr_handler_def Let_def two one
    by (simp add: abs_uart_def Let_def)
  moreover have "uart_inv (uart0_rx_intr_handler full_st fifo_full tout_st fifo_tout s)"
    unfolding uart0_rx_intr_handler_def Let_def by (rule i2)
  ultimately show ?thesis using tx ff by simp
qed

lemma uart_read_bytes_run:
  assumes "uart_inv s"
  shows "fst (uart_read_bytes n s) = take (unat n) (rx_contents s) \<and>
         rx_contents (snd (uart_read_bytes n s)) = drop (unat n) (rx_contents s) \<and>
         tx_contents (snd (uart_read_bytes n s)) = tx_contents s \<and>
         uart_fifo (snd (uart_read_bytes n s)) = uart_fifo s \<and>
         uart_inv (snd (uart_read_bytes n s))"
  using read_loop_run[OF assms, of "unat n"]
  by (simp add: uart_read_bytes_def tx_contents_def read_loop_frame)

lemma uart_write_bytes_rx:
  "rx_contents (snd (uart_write_bytes e data s)) = rx_contents s"
  by (simp add: rx_contents_def uart_write_bytes_frame)

lemma uart_do_refines:
  assumes "uart_inv s"
  shows "fst (uart_do op s) = fst (fifo_do op (abs_uart s)) \<and>
         abs_uart (snd (uart_do op s)) = snd (fifo_do op (abs_uart s)) \<and>
         uart_inv (snd (uart_do op s))"
proof (cases op)
  case (RxIntr full_st fifo_full tout_st fifo_tout)
  show ?thesis
    using rx_handler_run[OF assms, of full_st fifo_full tout_st fifo_tout]
    unfolding RxIntr by (simp add: abs_uart_def Let_def)
next
  case (ReadBytes n)
  show ?thesis
    using uart_read_bytes_run[OF assms, of n]
    unfolding ReadBytes by (simp add: abs_uart_def split_beta fifo_read_def)
next
  case (WriteBytes e data)
  note r = uart_write_bytes_run[OF assms refl, of e data]
  show ?thesis
  proof (cases e)
    case True
    then show ?thesis using r uart_write_bytes_rx[of e data s]
      unfolding WriteBytes
      by (simp add: abs_uart_def split_beta fifo_read_def fifo_write_def del: take_append drop_append)
  next
    case False
    then show ?thesis using r uart_write_bytes_rx[of e data s]
      unfolding WriteBytes
      by (simp add: abs_uart_def split_beta fifo_read_def fifo_write_def)
  qed
qed

text \<open>
  C6, as amended.  Each ring refines the bounded FIFO queue of capacity \<open>N - 1\<close> under
  its own writer and reader: the receive ring is written by \<open>uart0_rx_intr_handler\<close> and
  read by \<open>uart_read_bytes\<close>, the transmit ring is written by \<open>uart_write_bytes\<close> and
  read by the transmit handler it calls.  For every interleaving of these operations the
  driver returns what the two queues return, call by call, and the bytes its rings hold
  and the bytes it has put on the wire are those of the queues.
\<close>

theorem uart_rings_refine_fifo:
  assumes "uart_inv s"
  shows "fst (uart_run ops s) = fst (fifo_run ops (abs_uart s)) \<and>
         abs_uart (snd (uart_run ops s)) = snd (fifo_run ops (abs_uart s))"
  using assms
proof (induction ops arbitrary: s)
  case Nil
  then show ?case by simp
next
  case (Cons op ops)
  note st = uart_do_refines[OF Cons.prems, of op]
  have "uart_inv (snd (uart_do op s))" using st by simp
  from Cons.IH[OF this] st show ?case
    by (simp add: split_beta)
qed


lemma uart_init_inv: "uart_inv uart_init"
  by (simp add: uart_inv_def uart_init_def UART_RX_BUFFER_SIZE_def UART_TX_BUFFER_SIZE_def)

lemma uart_init_empty: "rx_contents uart_init = []" "tx_contents uart_init = []"
  by (simp_all add: rx_contents_def tx_contents_def ring_def uart_init_def
      UART_RX_BUFFER_SIZE_def UART_TX_BUFFER_SIZE_def)

text \<open>
  The hypothesis of C6 holds after \<open>uart_init\<close>: two bytes arrive, one is read, one is
  written and leaves for the wire.
\<close>

theorem uart_rings_refine_fifo_witness:
  "uart_inv uart_init \<and>
   fst (uart_run [RxIntr True [0x41, 0x42] False [], ReadBytes 1, WriteBytes True [0x43]]
          uart_init)
     = [NoValue, BytesRead [0x41], Accepted 1] \<and>
   abs_uart (snd (uart_run [RxIntr True [0x41, 0x42] False [], ReadBytes 1,
                            WriteBytes True [0x43]] uart_init))
     = \<lparr>rx_queue = [0x42], tx_queue = [], wire = [0x43]\<rparr>"
proof -
  have a: "abs_uart uart_init = \<lparr>rx_queue = [], tx_queue = [], wire = []\<rparr>"
    by (simp add: abs_uart_def uart_init_empty) (simp add: uart_init_def)
  show ?thesis
    using uart_rings_refine_fifo[OF uart_init_inv,
        of "[RxIntr True [0x41, 0x42] False [], ReadBytes 1, WriteBytes True [0x43]]"]
      uart_init_inv
    by (simp add: a fifo_write_def fifo_read_def UART_RX_BUFFER_SIZE_def
        UART_TX_BUFFER_SIZE_def)
qed

text \<open>
  C6 as stated fails: \<open>uart_write_bytes\<close> and \<open>uart_read_bytes\<close> work on different rings.
  After \<open>uart_init\<close> a write of one byte is accepted, and the read that follows returns
  nothing.
\<close>

theorem uart_write_then_read_counterexample:
  "fst (uart_write_bytes False [0x41] uart_init) = 1 \<and>
   fst (uart_read_bytes 1 (snd (uart_write_bytes False [0x41] uart_init))) = []"
proof -
  let ?s = "snd (uart_write_bytes False [0x41] uart_init)"
  note w = uart_write_bytes_run[OF uart_init_inv refl, of False "[0x41]"]
  have "fst (uart_write_bytes False [0x41] uart_init) = 1"
    using w by (simp add: uart_init_empty UART_TX_BUFFER_SIZE_def)
  moreover have "uart_inv ?s" using w by simp
  then have "fst (uart_read_bytes 1 ?s) = take 1 (rx_contents ?s)"
    using uart_read_bytes_run[of ?s 1] by simp
  then have "fst (uart_read_bytes 1 ?s) = []"
    by (simp add: uart_write_bytes_rx uart_init_empty)
  ultimately show ?thesis by simp
qed

section \<open>The sequence field\<close>

lemma mask_FFF0: "(0xFFF0 :: u16) = NOT (mask 4)"
  by (simp add: mask_eq_exp_minus_1 not_eq_complement)

lemma mask_F: "(0xF :: u16) = mask 4"
  by (simp add: mask_eq_exp_minus_1)

lemma seq_ctrl_number: "drop_bit 4 (push_bit 4 (t :: u16) AND 0xFFF0) = take_bit 12 t"
  unfolding mask_FFF0
  by (rule bit_word_eqI) (auto simp: bit_simps)

lemma seq_ctrl_fragment: "(push_bit 4 (t :: u16) AND 0xFFF0) AND 0xF = 0"
  unfolding mask_FFF0 mask_F
  by (rule bit_word_eqI) (auto simp: bit_simps)

lemma unat_take_bit_12: "unat (take_bit 12 (t :: u16)) = unat t mod 4096"
  by (simp add: unsigned_take_bit_eq take_bit_eq_mod unat_mod)

lemma unat_succ_mod: "unat ((t :: u16) + 1) mod 4096 = (unat t mod 4096 + 1) mod 4096"
proof -
  have "unat (t + 1) mod 4096 = ((unat t + 1) mod 65536) mod 4096"
    by (simp add: unat_word_ariths)
  also have "\<dots> = (unat t + 1) mod 4096"
    by (simp add: mod_mod_cancel)
  also have "\<dots> = (unat t mod 4096 + 1) mod 4096"
    by (simp add: mod_Suc_eq)
  finally show ?thesis .
qed

section \<open>Frame construction and the sequence counter\<close>

lemma build_seq_ctrl:
  "seq_ctrl (fst (build_80211_header w)) = push_bit 4 (tx_sequence w) AND 0xFFF0"
  by (simp add: build_80211_header_def)

lemma build_sequence_number:
  "unat (sequence_number (fst (build_80211_header w))) = unat (tx_sequence w) mod 4096"
  unfolding sequence_number_def build_seq_ctrl seq_ctrl_number unat_take_bit_12 ..

lemma build_tx_sequence: "tx_sequence (snd (build_80211_header w)) = tx_sequence w + 1"
  by (simp add: build_80211_header_def)

lemma frame_store_frame:
  "tx_sequence (frame_store off bytes w) = tx_sequence w \<and>
   tx_ready (frame_store off bytes w) = tx_ready w \<and>
   tx_count (frame_store off bytes w) = tx_count w \<and>
   rx_count (frame_store off bytes w) = rx_count w \<and>
   tx_error_count (frame_store off bytes w) = tx_error_count w \<and>
   rx_drop_count (frame_store off bytes w) = rx_drop_count w \<and>
   sta_mac (frame_store off bytes w) = sta_mac w \<and>
   sent_frames (frame_store off bytes w) = sent_frames w"
  by (simp add: frame_store_def split: option.splits)

lemma wifi_raw_send_tx_sequence:
  assumes "len \<noteq> 0" "unat len \<le> MAX_PACKET_SIZE" "tx_ready w \<noteq> 0"
  shows "tx_sequence (snd (wifi_raw_send sdk_result (Some data) len w)) = tx_sequence w + 1"
  using assms
  by (simp add: wifi_raw_send_def split_beta Let_def frame_store_frame build_tx_sequence)

text \<open>
  C7.  The sequence number in bits 15:4 of the header that \<open>build_80211_header\<close> builds is
  one more, modulo 4096, than the number its previous call built; the fragment bits 3:0
  are zero; the call advances \<open>tx_sequence\<close> in every case; and a call of
  \<open>wifi_raw_send\<close> that passes its checks leaves \<open>tx_sequence\<close> as the build call left it,
  whatever \<open>wifi_send_pkt_freedom\<close> returns.
\<close>

theorem build_80211_header_sequence:
  assumes "len \<noteq> 0" and "unat len \<le> MAX_PACKET_SIZE" and "tx_ready w \<noteq> 0"
  shows "unat (sequence_number (fst (build_80211_header (snd (build_80211_header w)))))
           = (unat (sequence_number (fst (build_80211_header w))) + 1) mod 4096 \<and>
         fragment_number (fst (build_80211_header w)) = 0 \<and>
         tx_sequence (snd (build_80211_header w)) = tx_sequence w + 1 \<and>
         tx_sequence (snd (wifi_raw_send sdk_result (Some data) len w))
           = tx_sequence (snd (build_80211_header w))"
proof -
  have "unat (sequence_number (fst (build_80211_header (snd (build_80211_header w)))))
          = unat (tx_sequence w + 1) mod 4096"
    by (simp only: build_sequence_number build_tx_sequence)
  also have "\<dots> = (unat (tx_sequence w) mod 4096 + 1) mod 4096"
    by (rule unat_succ_mod)
  also have "\<dots> = (unat (sequence_number (fst (build_80211_header w))) + 1) mod 4096"
    by (simp only: build_sequence_number)
  finally have step: "unat (sequence_number (fst (build_80211_header (snd (build_80211_header w)))))
           = (unat (sequence_number (fst (build_80211_header w))) + 1) mod 4096" .
  have frag: "fragment_number (fst (build_80211_header w)) = 0"
    unfolding fragment_number_def build_seq_ctrl by (rule seq_ctrl_fragment)
  show ?thesis
    using step frag wifi_raw_send_tx_sequence[OF assms, of sdk_result data]
    by (simp only: build_tx_sequence simp_thms)
qed

lemma wifi_idle_ready: "tx_ready wifi_idle \<noteq> 0"
  by (simp add: wifi_idle_def wifi_raw_init_def)

theorem build_80211_header_sequence_witness:
  "(1 :: u16) \<noteq> 0 \<and> unat (1 :: u16) \<le> MAX_PACKET_SIZE \<and> tx_ready wifi_idle \<noteq> 0 \<and>
   unat (sequence_number (fst (build_80211_header (snd (build_80211_header wifi_idle))))) = 1 \<and>
   tx_sequence (snd (wifi_raw_send (- 1) (Some [0x11]) 1 wifi_idle)) = 1"
proof -
  have a: "(1 :: u16) \<noteq> 0" by simp
  have b: "unat (1 :: u16) \<le> MAX_PACKET_SIZE" by (simp add: MAX_PACKET_SIZE_def)
  have s0: "tx_sequence wifi_idle = 0" by (simp add: wifi_idle_def wifi_raw_init_def)
  have n0: "unat (sequence_number (fst (build_80211_header wifi_idle))) = 0"
    by (simp add: build_sequence_number s0)
  show ?thesis
    using build_80211_header_sequence[OF a b wifi_idle_ready, of "- 1" "[0x11]"] a b
      wifi_idle_ready
    by (simp add: n0 s0)
qed

section \<open>The transmit function\<close>

subsection \<open>Rejected calls\<close>

text \<open>
  C8.  Called with the null pointer, with length 0, with a length beyond
  \<open>MAX_PACKET_SIZE\<close>, or while \<open>tx_ready\<close> is 0, \<open>wifi_raw_send\<close> returns -1 and changes
  nothing but \<open>tx_error_count\<close>, which goes up by exactly 1: no frame is handed to
  \<open>wifi_send_pkt_freedom\<close>, and nothing of the packet is kept for a later attempt.
\<close>

theorem wifi_raw_send_rejects:
  assumes "raw_data = None \<or> len = 0 \<or> unat len > MAX_PACKET_SIZE \<or> tx_ready w = 0"
  shows "wifi_raw_send sdk_result raw_data len w
           = (- 1, w\<lparr>tx_error_count := tx_error_count w + 1\<rparr>) \<and>
         sent_frames (snd (wifi_raw_send sdk_result raw_data len w)) = sent_frames w"
  using assms by (auto simp: wifi_raw_send_def split: option.splits)

lemma wifi_busy_not_ready: "tx_ready wifi_busy = 0"
  by (simp add: wifi_busy_def)

text \<open>
  Each of the four conditions of C8 at a concrete call: the null pointer, length 0,
  length 257, and a transmission in progress.
\<close>

theorem wifi_raw_send_rejects_witness:
  "wifi_raw_send 0 None 1 wifi_idle
     = (- 1, wifi_idle\<lparr>tx_error_count := tx_error_count wifi_idle + 1\<rparr>) \<and>
   wifi_raw_send 0 (Some [0x11]) 0 wifi_idle
     = (- 1, wifi_idle\<lparr>tx_error_count := tx_error_count wifi_idle + 1\<rparr>) \<and>
   unat (257 :: u16) > MAX_PACKET_SIZE \<and>
   wifi_raw_send 0 (Some (replicate 257 0x11)) 257 wifi_idle
     = (- 1, wifi_idle\<lparr>tx_error_count := tx_error_count wifi_idle + 1\<rparr>) \<and>
   tx_ready wifi_busy = 0 \<and>
   wifi_raw_send 0 (Some [0x11]) 1 wifi_busy
     = (- 1, wifi_busy\<lparr>tx_error_count := tx_error_count wifi_busy + 1\<rparr>)"
proof -
  have big: "unat (257 :: u16) > MAX_PACKET_SIZE" by (simp add: MAX_PACKET_SIZE_def)
  show ?thesis
    using wifi_raw_send_rejects[of None 1 wifi_idle 0]
      wifi_raw_send_rejects[of "Some [0x11]" 0 wifi_idle 0]
      wifi_raw_send_rejects[of "Some (replicate 257 0x11)" 257 wifi_idle 0]
      wifi_raw_send_rejects[of "Some [0x11]" 1 wifi_busy 0]
      big wifi_busy_not_ready
    by simp
qed

subsection \<open>The extent of the stores\<close>

lemma addr_bytes_length: "length (addr_bytes a) = 6"
  by (cases a) simp

lemma hdr_bytes_length: "length (hdr_bytes h) = IEEE80211_HEADER_SIZE"
  by (simp add: hdr_bytes_def le16_def addr_bytes_length IEEE80211_HEADER_SIZE_def)

lemma wifi_raw_send_accepts:
  assumes "len \<noteq> 0" "unat len \<le> MAX_PACKET_SIZE" "tx_ready w \<noteq> 0"
    and "length (tx_frame_buffer w) = TX_FRAME_BUFFER_SIZE"
  shows "tx_frame_buffer (snd (wifi_raw_send sdk_result (Some data) len w))
           = hdr_bytes (fst (build_80211_header w)) @ map (\<lambda>i. data ! i) [0 ..< unat len] @
             drop (IEEE80211_HEADER_SIZE + unat len) (tx_frame_buffer w) \<and>
         tx_frame_fault (snd (wifi_raw_send sdk_result (Some data) len w)) = tx_frame_fault w"
proof -
  let ?h = "hdr_bytes (fst (build_80211_header w))"
  let ?w1 = "snd (build_80211_header w)"
  let ?p = "map (\<lambda>i. data ! i) [0 ..< unat len]"
  have hl: "length ?h = IEEE80211_HEADER_SIZE" by (rule hdr_bytes_length)
  have b1: "tx_frame_buffer ?w1 = tx_frame_buffer w" "tx_frame_fault ?w1 = tx_frame_fault w"
    by (simp_all add: build_80211_header_def)
  have sz: "IEEE80211_HEADER_SIZE + unat len \<le> TX_FRAME_BUFFER_SIZE"
    using assms(2) by (simp add: TX_FRAME_BUFFER_SIZE_def)
  have s1: "frame_store 0 ?h ?w1
              = ?w1\<lparr>tx_frame_buffer := ?h @ drop IEEE80211_HEADER_SIZE (tx_frame_buffer w)\<rparr>"
    using sz assms(4) hl b1 by (simp add: frame_store_def mem_store_def)
  let ?w2 = "?w1\<lparr>tx_frame_buffer := ?h @ drop IEEE80211_HEADER_SIZE (tx_frame_buffer w)\<rparr>"
  have l2: "length (tx_frame_buffer ?w2) = TX_FRAME_BUFFER_SIZE"
    using sz assms(4) hl by simp
  have s2: "frame_store IEEE80211_HEADER_SIZE ?p ?w2
              = ?w2\<lparr>tx_frame_buffer :=
                      ?h @ ?p @ drop (IEEE80211_HEADER_SIZE + unat len) (tx_frame_buffer w)\<rparr>"
    using sz assms(4) hl by (simp add: frame_store_def mem_store_def add.commute)
  show ?thesis
    using assms(1,2,3) b1
    by (simp add: wifi_raw_send_def split_beta Let_def s1 s2)
qed

text \<open>
  C9.  \<open>tx_frame_buffer\<close> has \<open>IEEE80211_HEADER_SIZE + MAX_PACKET_SIZE\<close> = 280 bytes, the
  header that \<open>build_80211_header\<close> builds occupies \<open>IEEE80211_HEADER_SIZE\<close> = 24 of them,
  and no call of \<open>wifi_raw_send\<close> stores outside the array: a call that passes the checks
  writes the 24 header bytes at offset 0 and the \<open>len\<close> payload bytes at offset 24 and
  leaves the rest of the array as it was, and any other call writes nothing.
\<close>

theorem wifi_raw_send_in_bounds:
  assumes "length (tx_frame_buffer w) = TX_FRAME_BUFFER_SIZE"
  shows "TX_FRAME_BUFFER_SIZE = 280 \<and>
         TX_FRAME_BUFFER_SIZE = IEEE80211_HEADER_SIZE + MAX_PACKET_SIZE \<and>
         length (hdr_bytes (fst (build_80211_header w))) = IEEE80211_HEADER_SIZE \<and>
         tx_frame_fault (snd (wifi_raw_send sdk_result raw_data len w)) = tx_frame_fault w \<and>
         length (tx_frame_buffer (snd (wifi_raw_send sdk_result raw_data len w)))
           = TX_FRAME_BUFFER_SIZE \<and>
         tx_frame_buffer (snd (wifi_raw_send sdk_result raw_data len w))
           = (if raw_data = None \<or> len = 0 \<or> unat len > MAX_PACKET_SIZE \<or> tx_ready w = 0
              then tx_frame_buffer w
              else hdr_bytes (fst (build_80211_header w)) @
                   (case raw_data of None \<Rightarrow> []
                    | Some data \<Rightarrow> map (\<lambda>i. data ! i) [0 ..< unat len]) @
                   drop (IEEE80211_HEADER_SIZE + unat len) (tx_frame_buffer w))"
proof (cases "raw_data = None \<or> len = 0 \<or> unat len > MAX_PACKET_SIZE \<or> tx_ready w = 0")
  case True
  then have "wifi_raw_send sdk_result raw_data len w
               = (- 1, w\<lparr>tx_error_count := tx_error_count w + 1\<rparr>)"
    by (auto simp: wifi_raw_send_def split: option.splits)
  then show ?thesis using True assms hdr_bytes_length[of "fst (build_80211_header w)"]
    by (simp add: TX_FRAME_BUFFER_SIZE_def IEEE80211_HEADER_SIZE_def MAX_PACKET_SIZE_def)
next
  case False
  then obtain data where d: "raw_data = Some data" by auto
  have g: "len \<noteq> 0" "unat len \<le> MAX_PACKET_SIZE" "tx_ready w \<noteq> 0" using False by auto
  note a = wifi_raw_send_accepts[OF g assms, of sdk_result data]
  have hl: "length (hdr_bytes (fst (build_80211_header w))) = IEEE80211_HEADER_SIZE"
    by (rule hdr_bytes_length)
  have sz: "IEEE80211_HEADER_SIZE + unat len \<le> TX_FRAME_BUFFER_SIZE"
    using g(2) by (simp add: TX_FRAME_BUFFER_SIZE_def)
  have len: "length (tx_frame_buffer (snd (wifi_raw_send sdk_result raw_data len w)))
              = TX_FRAME_BUFFER_SIZE"
    unfolding d a[THEN conjunct1] using hl sz assms by simp
  have c: "TX_FRAME_BUFFER_SIZE = 280"
    "TX_FRAME_BUFFER_SIZE = IEEE80211_HEADER_SIZE + MAX_PACKET_SIZE"
    by (simp_all add: TX_FRAME_BUFFER_SIZE_def IEEE80211_HEADER_SIZE_def MAX_PACKET_SIZE_def)
  show ?thesis using False a len c hl unfolding d by simp
qed

lemma wifi_idle_shape:
  "length (tx_frame_buffer wifi_idle) = TX_FRAME_BUFFER_SIZE"
  by (simp add: wifi_idle_def wifi_raw_init_def)

text \<open>
  The hypothesis of C9 holds after \<open>wifi_raw_init\<close>; a payload of the maximal length 256
  is stored without a fault, behind a header of 24 bytes.
\<close>

theorem wifi_raw_send_in_bounds_witness:
  "length (tx_frame_buffer wifi_idle) = TX_FRAME_BUFFER_SIZE \<and>
   unat (256 :: u16) = MAX_PACKET_SIZE \<and>
   length (hdr_bytes (fst (build_80211_header wifi_idle))) = 24 \<and>
   tx_frame_fault (snd (wifi_raw_send 0 (Some (replicate 256 0x11)) 256 wifi_idle)) = False \<and>
   length (tx_frame_buffer (snd (wifi_raw_send 0 (Some (replicate 256 0x11)) 256 wifi_idle)))
     = 280"
proof -
  have f: "tx_frame_fault wifi_idle = False" by (simp add: wifi_idle_def wifi_raw_init_def)
  have m: "unat (256 :: u16) = MAX_PACKET_SIZE" by (simp add: MAX_PACKET_SIZE_def)
  note t = wifi_raw_send_in_bounds[OF wifi_idle_shape, of 0 "Some (replicate 256 0x11)" 256]
  have hd: "length (hdr_bytes (fst (build_80211_header wifi_idle))) = 24"
    using t[THEN conjunct2, THEN conjunct2, THEN conjunct1]
    by (simp add: IEEE80211_HEADER_SIZE_def)
  have nf: "tx_frame_fault (snd (wifi_raw_send 0 (Some (replicate 256 0x11)) 256 wifi_idle))
              = False"
    using t[THEN conjunct2, THEN conjunct2, THEN conjunct2, THEN conjunct1] f by simp
  have ln: "length (tx_frame_buffer
              (snd (wifi_raw_send 0 (Some (replicate 256 0x11)) 256 wifi_idle))) = 280"
    using t[THEN conjunct1]
      t[THEN conjunct2, THEN conjunct2, THEN conjunct2, THEN conjunct2, THEN conjunct1]
    by simp
  from wifi_idle_shape m hd nf ln show ?thesis by blast
qed

subsection \<open>The transmit-ready flag\<close>

lemma wifi_raw_send_flag:
  "tx_ready (snd (wifi_raw_send sdk_result raw_data len w)) =
     (if raw_data = None \<or> len = 0 \<or> unat len > MAX_PACKET_SIZE \<or> tx_ready w = 0
      then tx_ready w else if sdk_result = 0 then 0 else 1) \<and>
   length (sent_frames (snd (wifi_raw_send sdk_result raw_data len w))) =
     (if raw_data = None \<or> len = 0 \<or> unat len > MAX_PACKET_SIZE \<or> tx_ready w = 0
      then length (sent_frames w) else length (sent_frames w) + 1)"
  by (cases raw_data)
     (simp_all add: wifi_raw_send_def split_beta Let_def frame_store_frame
       build_80211_header_def)

lemma issued_RawSend:
  "issued (RawSend sdk_result raw_data len) w =
     (if raw_data = None \<or> len = 0 \<or> unat len > MAX_PACKET_SIZE \<or> tx_ready w = 0
      then 0 else 1)"
  by (simp add: issued_def wifi_raw_send_flag)

lemma outstanding_bound:
  assumes "n \<le> 1" "tx_ready w \<noteq> 0 \<longrightarrow> n = 0"
  shows "outstanding es w n \<le> 1"
  using assms
proof (induction es arbitrary: w n)
  case Nil
  then show ?case by simp
next
  case (Cons e es)
  show ?case
  proof (cases e)
    case (RawSend sdk_result raw_data len)
    let ?w' = "wifi_do (RawSend sdk_result raw_data len) w"
    let ?n' = "if sdk_result = 0 then n + issued (RawSend sdk_result raw_data len) w else n"
    have "?n' \<le> 1 \<and> (tx_ready ?w' \<noteq> 0 \<longrightarrow> ?n' = 0)"
      using Cons.prems by (auto simp: issued_RawSend wifi_raw_send_flag)
    then have "outstanding es ?w' ?n' \<le> 1" using Cons.IH by blast
    then show ?thesis unfolding RawSend by simp
  next
    case (TxComplete status)
    have "outstanding es (wifi_do (TxComplete status) w) (n - 1) \<le> 1"
      using Cons.prems by (intro Cons.IH) auto
    then show ?thesis unfolding TxComplete by simp
  qed
qed

text \<open>
  C4, as amended.  \<open>wifi_raw_send\<close> hands a frame to \<open>wifi_send_pkt_freedom\<close> only while
  \<open>tx_ready\<close> is not 0.  When it does and the SDK accepts the frame (result 0), \<open>tx_ready\<close>
  is 0 afterwards; when the SDK refuses it, \<open>wifi_raw_send\<close> itself sets \<open>tx_ready\<close> back
  to 1; a call that hands over no frame leaves the flag alone.  The completion callback
  \<open>wifi_freedom_tx_cb\<close> sets it to 1.  So along every sequence of calls and callbacks that
  starts with at most one transmission outstanding, and none while the flag is set, at most
  one transmission is outstanding at any time.
\<close>

theorem tx_ready_gate:
  assumes "n \<le> 1" and "tx_ready w \<noteq> 0 \<longrightarrow> n = 0"
  shows "(tx_ready w = 0 \<longrightarrow> issued (RawSend sdk_result raw_data len) w = 0) \<and>
         (issued (RawSend sdk_result raw_data len) w = 0 \<longrightarrow>
            tx_ready (wifi_do (RawSend sdk_result raw_data len) w) = tx_ready w) \<and>
         (issued (RawSend sdk_result raw_data len) w \<noteq> 0 \<longrightarrow>
            issued (RawSend sdk_result raw_data len) w = 1 \<and>
            tx_ready (wifi_do (RawSend sdk_result raw_data len) w)
              = (if sdk_result = 0 then 0 else 1)) \<and>
         tx_ready (wifi_do (TxComplete status) w) = 1 \<and>
         outstanding es w n \<le> 1"
  using outstanding_bound[OF assms, of es]
  by (simp add: issued_RawSend wifi_raw_send_flag wifi_freedom_tx_cb_def)

text \<open>
  The hypotheses of C4 hold after \<open>wifi_raw_init\<close> with nothing outstanding: of two calls
  in a row only the first hands over a frame, and after the callback nothing is
  outstanding.
\<close>

theorem tx_ready_gate_witness:
  "(0 :: nat) \<le> 1 \<and> tx_ready wifi_idle \<noteq> 0 \<and>
   issued (RawSend 0 (Some [0x11]) 1) wifi_idle = 1 \<and>
   tx_ready (wifi_do (RawSend 0 (Some [0x11]) 1) wifi_idle) = 0 \<and>
   outstanding [RawSend 0 (Some [0x11]) 1, RawSend 0 (Some [0x22]) 1, TxComplete 0]
     wifi_idle 0 \<le> 1"
proof -
  have a: "(0 :: nat) \<le> 1" by simp
  have b: "tx_ready wifi_idle \<noteq> 0 \<longrightarrow> (0 :: nat) = 0" by simp
  have i: "issued (RawSend 0 (Some [0x11]) 1) wifi_idle = 1"
    using wifi_idle_ready by (simp add: issued_RawSend MAX_PACKET_SIZE_def)
  show ?thesis
    using tx_ready_gate[OF a b, of 0 "Some [0x11]" 1 0
        "[RawSend 0 (Some [0x11]) 1, RawSend 0 (Some [0x22]) 1, TxComplete 0]"] i
      wifi_idle_ready
    by simp
qed

text \<open>
  C4 as stated fails when the SDK refuses the frame: after \<open>wifi_raw_init\<close>, a call whose
  frame is handed over and refused (result -1) ends with \<open>tx_ready\<close> = 1, set by
  \<open>wifi_raw_send\<close> itself and not by the callback.
\<close>

theorem tx_ready_reset_counterexample:
  "tx_ready wifi_idle = 1 \<and>
   length (sent_frames (snd (wifi_raw_send (- 1) (Some [0x11]) 1 wifi_idle)))
     = length (sent_frames wifi_idle) + 1 \<and>
   tx_ready (snd (wifi_raw_send (- 1) (Some [0x11]) 1 wifi_idle)) = 1"
proof -
  have r: "tx_ready wifi_idle = 1" by (simp add: wifi_idle_def wifi_raw_init_def)
  show ?thesis
    using wifi_raw_send_flag[of "- 1" "Some [0x11]" 1 wifi_idle] r
    by (simp add: MAX_PACKET_SIZE_def)
qed

section \<open>The receive filter\<close>

lemma unat_legacy_length: "unat (ucast (ll :: 12 word) :: u16) = unat ll"
  by (simp add: unsigned_ucast_eq take_bit_nat_eq_self unsigned_less[of ll, simplified]
      order_less_trans[OF unsigned_less[of ll, simplified]])

lemma payload_len_sane:
  "(unat (payload_len_of buf) \<le> MAX_PACKET_SIZE) =
     (IEEE80211_HEADER_SIZE + 4 \<le> unat (legacy_length (rx_ctrl buf)) \<and>
      unat (legacy_length (rx_ctrl buf)) - (IEEE80211_HEADER_SIZE + 4) \<le> MAX_PACKET_SIZE)"
proof -
  let ?ll = "ucast (legacy_length (rx_ctrl buf)) :: u16"
  have p: "payload_len_of buf = ?ll - 28"
    by (simp add: payload_len_of_def IEEE80211_HEADER_SIZE_def)
  have u: "unat (?ll - 28) = (if 28 \<le> unat ?ll then unat ?ll - 28 else unat ?ll + 65536 - 28)"
    by (simp add: unat_sub_if_size word_size)
  show ?thesis unfolding p u unat_legacy_length
    by (simp add: IEEE80211_HEADER_SIZE_def MAX_PACKET_SIZE_def)
qed

lemma rx_cb_steps_decide:
  "wifi_promiscuous_rx_cb_steps e1 e2 buf len fw =
     (if passes_filters buf len
      then [fw\<lparr>wifi := (wifi fw)\<lparr>rx_count := rx_count (wifi fw) + 1\<rparr>\<rparr>,
            fw\<lparr>wifi := (wifi fw)\<lparr>rx_count := rx_count (wifi fw) + 1\<rparr>,
               uart := snd (uart_write_bytes e1 (len_prefix_of buf) (uart fw))\<rparr>,
            fw\<lparr>wifi := (wifi fw)\<lparr>rx_count := rx_count (wifi fw) + 1\<rparr>,
               uart := snd (uart_write_bytes e2 (payload_of buf)
                              (snd (uart_write_bytes e1 (len_prefix_of buf) (uart fw))))\<rparr>]
      else [rx_drop fw])"
proof -
  have s: "(unat ((ucast (legacy_length (rx_ctrl buf)) :: u16) - of_nat IEEE80211_HEADER_SIZE - 4)
              \<le> MAX_PACKET_SIZE) =
           (IEEE80211_HEADER_SIZE + 4 \<le> unat (legacy_length (rx_ctrl buf)) \<and>
            unat (legacy_length (rx_ctrl buf)) - (IEEE80211_HEADER_SIZE + 4) \<le> MAX_PACKET_SIZE)"
    using payload_len_sane[of buf] by (simp add: payload_len_of_def)
  show ?thesis
  proof (cases "passes_filters buf len")
    case True
    then show ?thesis
      using s unfolding passes_filters_def wifi_promiscuous_rx_cb_steps_def
      by (simp add: Let_def payload_of_def len_prefix_of_def payload_len_of_def
          not_less del: of_nat_add)
  next
    case False
    then show ?thesis
      using s unfolding passes_filters_def wifi_promiscuous_rx_cb_steps_def
      by (auto simp: Let_def not_less simp del: of_nat_add)
  qed
qed

lemma rx_cb_decides:
  "wifi_promiscuous_rx_cb e1 e2 buf len fw =
     (if passes_filters buf len
      then fw\<lparr>wifi := (wifi fw)\<lparr>rx_count := rx_count (wifi fw) + 1\<rparr>,
              uart := snd (uart_write_bytes e2 (payload_of buf)
                             (snd (uart_write_bytes e1 (len_prefix_of buf) (uart fw))))\<rparr>
      else rx_drop fw)"
  by (simp add: wifi_promiscuous_rx_cb_def rx_cb_steps_decide)

subsection \<open>Two writes in a row\<close>

lemma uart_write_bytes_stream:
  assumes "uart_inv u"
  shows "uart_fifo (snd (uart_write_bytes e p u)) @ tx_contents (snd (uart_write_bytes e p u))
           = uart_fifo u @ tx_contents u @ take (tx_free u) p"
    and "uart_tx_overflow_count (snd (uart_write_bytes e p u))
           = uart_tx_overflow_count u + (if tx_free u < length p then 1 else 0)"
    and "uart_inv (snd (uart_write_bytes e p u))"
    and "tx_free u - length p \<le> tx_free (snd (uart_write_bytes e p u))"
    and "\<not> e \<Longrightarrow> tx_free (snd (uart_write_bytes e p u)) = tx_free u - length p"
    and "length (tx_contents (snd (uart_write_bytes e p u)))
           = length (tx_contents u) + min (length p) (tx_free u) - (if e then 128 else 0)"
proof -
  let ?u1 = "snd (uart_write_bytes e p u)"
  note r = uart_write_bytes_run[OF assms refl, of e p]
  have ff: "uart_fifo ?u1 = uart_fifo u @ take (if e then 128 else 0)
                                            (tx_contents u @ take (tx_free u) p)"
    and tc: "tx_contents ?u1 = drop (if e then 128 else 0) (tx_contents u @ take (tx_free u) p)"
    unfolding tx_free_def
    by (rule r[THEN conjunct2, THEN conjunct1],
        rule r[THEN conjunct2, THEN conjunct2, THEN conjunct1])
  show "uart_fifo ?u1 @ tx_contents ?u1 = uart_fifo u @ tx_contents u @ take (tx_free u) p"
    by (simp only: ff tc append_assoc append_take_drop_id)
  show "uart_tx_overflow_count ?u1
           = uart_tx_overflow_count u + (if tx_free u < length p then 1 else 0)"
    using r by (simp add: tx_free_def)
  show "uart_inv ?u1" using r by simp
  have bound: "length (tx_contents u) < UART_TX_BUFFER_SIZE"
    by (rule tx_contents_bound[OF assms])
  show len1: "length (tx_contents ?u1)
                = length (tx_contents u) + min (length p) (tx_free u) - (if e then 128 else 0)"
    unfolding tc by simp
  have le: "length (tx_contents ?u1) \<le> length (tx_contents u) + length p"
    unfolding len1 by simp
  show "tx_free u - length p \<le> tx_free ?u1"
    using le unfolding tx_free_def by arith
  show "tx_free ?u1 = tx_free u - length p" if "\<not> e"
    using that bound unfolding tx_free_def len1 by (simp add: min_def)
qed

lemma write_twice_stream:
  assumes "uart_inv u"
  shows "uart_fifo (snd (uart_write_bytes e2 q (snd (uart_write_bytes e1 p u)))) @
         tx_contents (snd (uart_write_bytes e2 q (snd (uart_write_bytes e1 p u))))
           = uart_fifo u @ tx_contents u @ take (tx_free u) p @
             take (tx_free (snd (uart_write_bytes e1 p u))) q"
    and "uart_tx_overflow_count (snd (uart_write_bytes e2 q (snd (uart_write_bytes e1 p u))))
           = uart_tx_overflow_count u + (if tx_free u < length p then 1 else 0)
             + (if tx_free (snd (uart_write_bytes e1 p u)) < length q then 1 else 0)"
proof -
  let ?u1 = "snd (uart_write_bytes e1 p u)"
  note a = uart_write_bytes_stream[OF assms, where e = e1 and p = p]
  note b = uart_write_bytes_stream[OF a(3), where e = e2 and p = q]
  show "uart_fifo (snd (uart_write_bytes e2 q ?u1)) @ tx_contents (snd (uart_write_bytes e2 q ?u1))
           = uart_fifo u @ tx_contents u @ take (tx_free u) p @ take (tx_free ?u1) q"
    using b(1) a(1) by (metis append_assoc)
  show "uart_tx_overflow_count (snd (uart_write_bytes e2 q ?u1))
           = uart_tx_overflow_count u + (if tx_free u < length p then 1 else 0)
             + (if tx_free ?u1 < length q then 1 else 0)"
    unfolding b(2) a(2) ..
qed

subsection \<open>Example frames\<close>

lemma len_prefix_length: "length (len_prefix_of buf) = 2"
  by (simp add: len_prefix_of_def)

lemma payload_of_length: "length (payload_of buf) = unat (payload_len_of buf)"
  by (simp add: payload_of_def)

lemma example_capture_passes:
  "passes_filters (example_capture ll CUSTOM_BSSID) 128 =
     (28 \<le> unat ll \<and> unat ll - 28 \<le> 256)"
  by (simp add: passes_filters_def example_capture_def IEEE80211_FCTL_FTYPE_def
      IEEE80211_FCTL_MGMT_def IEEE80211_HEADER_SIZE_def MAX_PACKET_SIZE_def
      sizeof_RxControl_def)

lemma fw_boot_uart: "uart fw_boot = uart_init"
  by (simp add: fw_boot_def)

lemma uart_init_free: "tx_free uart_init = 1023"
  by (simp add: tx_free_def uart_init_empty UART_TX_BUFFER_SIZE_def)

lemma example_payload_len: "payload_len_of (example_capture ll a3) = ucast ll - 28"
  by (simp add: payload_len_of_def example_capture_def IEEE80211_HEADER_SIZE_def)

subsection \<open>A frame with an empty payload\<close>

text \<open>
  C2, at the input where the code leaves it.  A probe-request frame of the link in legacy
  mode, captured with 128 bytes, that reports a frame length of 28 has the payload length
  \<open>28 - 24 - 4 = 0\<close>, which is not strictly positive; yet the callback forwards it: after
  boot \<open>rx_count\<close> goes up by 1, \<open>rx_drop_count\<close> stays, and the transmit ring, empty
  before, holds the two bytes \<open>00 00\<close> of the length prefix.
\<close>

theorem rx_empty_payload_accepted:
  "sig_mode (rx_ctrl (example_capture 28 CUSTOM_BSSID)) = 0 \<and>
   sizeof_RxControl + 28 \<le> unat (128 :: u16) \<and>
   frame_control (cap_hdr (example_capture 28 CUSTOM_BSSID)) AND IEEE80211_FCTL_FTYPE
     = IEEE80211_FCTL_MGMT \<and>
   addr3 (cap_hdr (example_capture 28 CUSTOM_BSSID)) = CUSTOM_BSSID \<and>
   payload_len_of (example_capture 28 CUSTOM_BSSID) = 0 \<and>
   rx_count (wifi (wifi_promiscuous_rx_cb False False (example_capture 28 CUSTOM_BSSID) 128
                     fw_boot)) = rx_count (wifi fw_boot) + 1 \<and>
   rx_drop_count (wifi (wifi_promiscuous_rx_cb False False
                          (example_capture 28 CUSTOM_BSSID) 128 fw_boot))
     = rx_drop_count (wifi fw_boot) \<and>
   tx_contents (uart fw_boot) = [] \<and>
   tx_contents (uart (wifi_promiscuous_rx_cb False False (example_capture 28 CUSTOM_BSSID)
                        128 fw_boot)) = [0, 0]"
proof -
  let ?cap = "example_capture 28 CUSTOM_BSSID"
  let ?u1 = "snd (uart_write_bytes False (len_prefix_of ?cap) uart_init)"
  let ?u2 = "snd (uart_write_bytes False (payload_of ?cap) ?u1)"
  have p: "passes_filters ?cap 128" by (simp add: example_capture_passes)
  have q: "sig_mode (rx_ctrl ?cap) = 0" "sizeof_RxControl + 28 \<le> unat (128 :: u16)"
    "frame_control (cap_hdr ?cap) AND IEEE80211_FCTL_FTYPE = IEEE80211_FCTL_MGMT"
    "addr3 (cap_hdr ?cap) = CUSTOM_BSSID"
    using p unfolding passes_filters_def by simp_all
  have z: "payload_len_of ?cap = 0" by (simp add: example_payload_len)
  have pre: "len_prefix_of ?cap = [0, 0]" by (simp add: len_prefix_of_def z)
  have pay: "payload_of ?cap = []" by (simp add: payload_of_def z)
  note a = uart_write_bytes_run[OF uart_init_inv refl, of False "len_prefix_of ?cap"]
  have i1: "uart_inv ?u1" using a by simp
  have c1: "tx_contents ?u1 = [0, 0]"
    using a by (simp add: pre uart_init_empty UART_TX_BUFFER_SIZE_def)
  note b = uart_write_bytes_run[OF i1 refl, of False "payload_of ?cap"]
  have c2: "tx_contents ?u2 = [0, 0]" using b by (simp add: pay c1)
  have r: "rx_count (wifi (wifi_promiscuous_rx_cb False False ?cap 128 fw_boot))
             = rx_count (wifi fw_boot) + 1"
    "rx_drop_count (wifi (wifi_promiscuous_rx_cb False False ?cap 128 fw_boot))
       = rx_drop_count (wifi fw_boot)"
    "tx_contents (uart (wifi_promiscuous_rx_cb False False ?cap 128 fw_boot)) = [0, 0]"
    unfolding rx_cb_decides using p c2 by (simp_all add: fw_boot_uart)
  have e: "tx_contents (uart fw_boot) = []" by (simp add: fw_boot_uart uart_init_empty)
  from q z r e show ?thesis by blast
qed

subsection \<open>Acceptance without room in the transmit ring\<close>

text \<open>
  C10, as amended.  For a frame that passes the filters the callback goes through three
  states: in the first \<open>rx_count\<close> is incremented and the UART is still as it was, so the
  counter is incremented before any output is written; the second and the third follow
  the two calls of \<open>uart_write_bytes\<close>, which append the first \<open>f\<close> bytes of the length
  prefix and the first \<open>f'\<close> bytes of the payload, \<open>f\<close> and \<open>f'\<close> being the free slots each
  call finds, with no other check of the room.  If the ring has fewer than
  \<open>payload_len + 2\<close> free slots and the first call does not drain the ring (the
  transmit-FIFO-empty status bit is clear), what is appended is a strict prefix of
  \<open>[LEN_HI][LEN_LO][payload]\<close>, its first \<open>f\<close> bytes, and the rest is counted only in
  \<open>uart_tx_overflow_count\<close>, once per call that fell short, while \<open>rx_count\<close> is still
  incremented.
\<close>

theorem rx_accept_partial_delivery:
  assumes "uart_inv (uart fw)"
    and "passes_filters buf len"
    and "tx_free (uart fw) < length (payload_of buf) + 2"
  shows "wifi_promiscuous_rx_cb_steps e1 e2 buf len fw
           = [fw\<lparr>wifi := (wifi fw)\<lparr>rx_count := rx_count (wifi fw) + 1\<rparr>\<rparr>,
              fw\<lparr>wifi := (wifi fw)\<lparr>rx_count := rx_count (wifi fw) + 1\<rparr>,
                 uart := snd (uart_write_bytes e1 (len_prefix_of buf) (uart fw))\<rparr>,
              wifi_promiscuous_rx_cb e1 e2 buf len fw] \<and>
         rx_count (wifi (hd (wifi_promiscuous_rx_cb_steps e1 e2 buf len fw)))
           = rx_count (wifi fw) + 1 \<and>
         uart (hd (wifi_promiscuous_rx_cb_steps e1 e2 buf len fw)) = uart fw \<and>
         uart (wifi_promiscuous_rx_cb e1 e2 buf len fw)
           = snd (uart_write_bytes e2 (payload_of buf)
                    (snd (uart_write_bytes e1 (len_prefix_of buf) (uart fw)))) \<and>
         rx_count (wifi (wifi_promiscuous_rx_cb e1 e2 buf len fw))
           = rx_count (wifi fw) + 1 \<and>
         rx_drop_count (wifi (wifi_promiscuous_rx_cb e1 e2 buf len fw))
           = rx_drop_count (wifi fw) \<and>
         uart_fifo (uart (wifi_promiscuous_rx_cb e1 e2 buf len fw)) @
         tx_contents (uart (wifi_promiscuous_rx_cb e1 e2 buf len fw))
           = uart_fifo (uart fw) @ tx_contents (uart fw) @
             take (tx_free (uart fw)) (len_prefix_of buf) @
             take (tx_free (snd (uart_write_bytes e1 (len_prefix_of buf) (uart fw))))
               (payload_of buf) \<and>
         (\<not> e1 \<longrightarrow>
            uart_fifo (uart (wifi_promiscuous_rx_cb e1 e2 buf len fw)) @
            tx_contents (uart (wifi_promiscuous_rx_cb e1 e2 buf len fw))
              = uart_fifo (uart fw) @ tx_contents (uart fw) @
                take (tx_free (uart fw)) (len_prefix_of buf @ payload_of buf) \<and>
            length (take (tx_free (uart fw)) (len_prefix_of buf @ payload_of buf))
              < length (len_prefix_of buf @ payload_of buf) \<and>
            uart_tx_overflow_count (uart (wifi_promiscuous_rx_cb e1 e2 buf len fw))
              = uart_tx_overflow_count (uart fw)
                + (if tx_free (uart fw) < 2 then 1 else 0)
                + (if tx_free (uart fw) - 2 < length (payload_of buf) then 1 else 0))"
proof -
  let ?p = "len_prefix_of buf" and ?q = "payload_of buf"
  let ?u1 = "snd (uart_write_bytes e1 ?p (uart fw))"
  let ?u2 = "snd (uart_write_bytes e2 ?q ?u1)"
  let ?fw1 = "fw\<lparr>wifi := (wifi fw)\<lparr>rx_count := rx_count (wifi fw) + 1\<rparr>\<rparr>"
  have fw': "wifi_promiscuous_rx_cb e1 e2 buf len fw
               = fw\<lparr>wifi := (wifi fw)\<lparr>rx_count := rx_count (wifi fw) + 1\<rparr>, uart := ?u2\<rparr>"
    unfolding rx_cb_decides using assms(2) by simp
  have steps: "wifi_promiscuous_rx_cb_steps e1 e2 buf len fw
                 = [?fw1, ?fw1\<lparr>uart := ?u1\<rparr>, wifi_promiscuous_rx_cb e1 e2 buf len fw]"
    unfolding fw' rx_cb_steps_decide using assms(2) by simp
  have first: "rx_count (wifi (hd (wifi_promiscuous_rx_cb_steps e1 e2 buf len fw)))
                 = rx_count (wifi fw) + 1"
    "uart (hd (wifi_promiscuous_rx_cb_steps e1 e2 buf len fw)) = uart fw"
    unfolding rx_cb_steps_decide using assms(2) by simp_all
  note t = write_twice_stream[OF assms(1), of e2 ?q e1 ?p]
  have counts: "rx_count (wifi (wifi_promiscuous_rx_cb e1 e2 buf len fw))
                  = rx_count (wifi fw) + 1"
    "rx_drop_count (wifi (wifi_promiscuous_rx_cb e1 e2 buf len fw))
       = rx_drop_count (wifi fw)"
    "uart (wifi_promiscuous_rx_cb e1 e2 buf len fw) = ?u2"
    unfolding fw' by simp_all
  have quiet: "uart_fifo ?u2 @ tx_contents ?u2
                 = uart_fifo (uart fw) @ tx_contents (uart fw) @
                   take (tx_free (uart fw)) (?p @ ?q) \<and>
               length (take (tx_free (uart fw)) (?p @ ?q)) < length (?p @ ?q) \<and>
               uart_tx_overflow_count ?u2
                 = uart_tx_overflow_count (uart fw)
                   + (if tx_free (uart fw) < 2 then 1 else 0)
                   + (if tx_free (uart fw) - 2 < length ?q then 1 else 0)"
    if ne: "\<not> e1"
  proof -
    have f1: "tx_free ?u1 = tx_free (uart fw) - 2"
      using uart_write_bytes_stream(5)[OF assms(1) ne, of ?p] by (simp add: len_prefix_length)
    have tk: "take (tx_free (uart fw)) (?p @ ?q)
                = take (tx_free (uart fw)) ?p @ take (tx_free (uart fw) - 2) ?q"
      by (simp add: len_prefix_length)
    have "uart_fifo ?u2 @ tx_contents ?u2
            = uart_fifo (uart fw) @ tx_contents (uart fw) @ take (tx_free (uart fw)) (?p @ ?q)"
      unfolding tk t(1) f1 ..
    moreover have "length (take (tx_free (uart fw)) (?p @ ?q)) < length (?p @ ?q)"
      using assms(3) by (simp add: len_prefix_length)
    moreover have "uart_tx_overflow_count ?u2
                 = uart_tx_overflow_count (uart fw)
                   + (if tx_free (uart fw) < 2 then 1 else 0)
                   + (if tx_free (uart fw) - 2 < length ?q then 1 else 0)"
      unfolding t(2) f1 by (simp add: len_prefix_length)
    ultimately show ?thesis by blast
  qed
  have tail: "uart_fifo ?u2 @ tx_contents ?u2
                = uart_fifo (uart fw) @ tx_contents (uart fw) @
                  take (tx_free (uart fw)) ?p @ take (tx_free ?u1) ?q"
    by (rule t(1))
  show ?thesis
    unfolding counts(3) using steps first counts(1,2) tail quiet by blast
qed

lemma fw_nearly_full_uart:
  "uart_inv (uart fw_nearly_full)" "length (tx_contents (uart fw_nearly_full)) = 1020"
  "tx_free (uart fw_nearly_full) = 3"
  "uart_tx_overflow_count (uart fw_nearly_full) = 0"
  by (simp_all add: fw_nearly_full_def uart_inv_def tx_free_def tx_contents_length
      uart_init_def UART_RX_BUFFER_SIZE_def UART_TX_BUFFER_SIZE_def)

lemma example_33:
  "passes_filters (example_capture 33 CUSTOM_BSSID) 128"
  "length (payload_of (example_capture 33 CUSTOM_BSSID)) = 5"
  by (simp_all add: example_capture_passes payload_of_length example_payload_len)

text \<open>
  The hypotheses of C10 hold for a 5-byte payload arriving while the transmit ring has 3
  free slots: \<open>rx_count\<close> is incremented with the UART untouched, and without a drain the
  first 3 of the 7 bytes are appended.
\<close>

theorem rx_accept_partial_delivery_witness:
  "uart_inv (uart fw_nearly_full) \<and>
   passes_filters (example_capture 33 CUSTOM_BSSID) 128 \<and>
   tx_free (uart fw_nearly_full) < length (payload_of (example_capture 33 CUSTOM_BSSID)) + 2 \<and>
   rx_count (wifi (hd (wifi_promiscuous_rx_cb_steps False False
                         (example_capture 33 CUSTOM_BSSID) 128 fw_nearly_full)))
     = rx_count (wifi fw_nearly_full) + 1 \<and>
   uart (hd (wifi_promiscuous_rx_cb_steps False False (example_capture 33 CUSTOM_BSSID) 128
               fw_nearly_full)) = uart fw_nearly_full \<and>
   rx_count (wifi (wifi_promiscuous_rx_cb False False (example_capture 33 CUSTOM_BSSID) 128
                     fw_nearly_full)) = rx_count (wifi fw_nearly_full) + 1 \<and>
   uart_fifo (uart (wifi_promiscuous_rx_cb False False (example_capture 33 CUSTOM_BSSID)
                      128 fw_nearly_full)) @
   tx_contents (uart (wifi_promiscuous_rx_cb False False (example_capture 33 CUSTOM_BSSID)
                        128 fw_nearly_full))
     = uart_fifo (uart fw_nearly_full) @ tx_contents (uart fw_nearly_full) @
       take 3 (len_prefix_of (example_capture 33 CUSTOM_BSSID) @
               payload_of (example_capture 33 CUSTOM_BSSID))"
proof -
  have r: "tx_free (uart fw_nearly_full)
             < length (payload_of (example_capture 33 CUSTOM_BSSID)) + 2"
    by (simp add: fw_nearly_full_uart example_33)
  note T = rx_accept_partial_delivery[OF fw_nearly_full_uart(1) example_33(1) r,
      of False False]
  have h: "rx_count (wifi (hd (wifi_promiscuous_rx_cb_steps False False
                         (example_capture 33 CUSTOM_BSSID) 128 fw_nearly_full)))
             = rx_count (wifi fw_nearly_full) + 1"
    by (rule T[THEN conjunct2, THEN conjunct1])
  have u: "uart (hd (wifi_promiscuous_rx_cb_steps False False
                       (example_capture 33 CUSTOM_BSSID) 128 fw_nearly_full))
             = uart fw_nearly_full"
    by (rule T[THEN conjunct2, THEN conjunct2, THEN conjunct1])
  have c: "rx_count (wifi (wifi_promiscuous_rx_cb False False
                     (example_capture 33 CUSTOM_BSSID) 128 fw_nearly_full))
             = rx_count (wifi fw_nearly_full) + 1"
    by (rule T[THEN conjunct2, THEN conjunct2, THEN conjunct2, THEN conjunct2,
          THEN conjunct1])
  have s: "uart_fifo (uart (wifi_promiscuous_rx_cb False False
                      (example_capture 33 CUSTOM_BSSID) 128 fw_nearly_full)) @
           tx_contents (uart (wifi_promiscuous_rx_cb False False
                      (example_capture 33 CUSTOM_BSSID) 128 fw_nearly_full))
             = uart_fifo (uart fw_nearly_full) @ tx_contents (uart fw_nearly_full) @
               take 3 (len_prefix_of (example_capture 33 CUSTOM_BSSID) @
                       payload_of (example_capture 33 CUSTOM_BSSID))"
    using T[THEN conjunct2, THEN conjunct2, THEN conjunct2, THEN conjunct2, THEN conjunct2,
        THEN conjunct2, THEN conjunct2, rule_format, THEN conjunct1]
    by (simp only: fw_nearly_full_uart(3) not_False_eq_True)
  from fw_nearly_full_uart(1) example_33(1) r h u c s show ?thesis by blast
qed

text \<open>
  C10 as stated fails when the first call drains the ring: with 3 free slots and the
  transmit-FIFO-empty status bit set, the prefix is accepted, 128 bytes leave the ring for
  the UART FIFO, and the 5 payload bytes all fit.  The whole packet is appended, not a
  strict prefix, and no overflow is counted.
\<close>

theorem rx_drain_counterexample:
  "passes_filters (example_capture 33 CUSTOM_BSSID) 128 \<and>
   tx_free (uart fw_nearly_full) = 3 \<and>
   length (payload_of (example_capture 33 CUSTOM_BSSID)) + 2 = 7 \<and>
   uart_fifo (uart (wifi_promiscuous_rx_cb True False (example_capture 33 CUSTOM_BSSID)
                      128 fw_nearly_full)) @
   tx_contents (uart (wifi_promiscuous_rx_cb True False (example_capture 33 CUSTOM_BSSID)
                        128 fw_nearly_full))
     = uart_fifo (uart fw_nearly_full) @ tx_contents (uart fw_nearly_full) @
       len_prefix_of (example_capture 33 CUSTOM_BSSID) @
       payload_of (example_capture 33 CUSTOM_BSSID) \<and>
   uart_tx_overflow_count (uart (wifi_promiscuous_rx_cb True False
                                  (example_capture 33 CUSTOM_BSSID) 128 fw_nearly_full))
     = uart_tx_overflow_count (uart fw_nearly_full)"
proof -
  let ?cap = "example_capture 33 CUSTOM_BSSID"
  let ?p = "len_prefix_of ?cap" and ?q = "payload_of ?cap"
  let ?u = "uart fw_nearly_full"
  let ?u1 = "snd (uart_write_bytes True ?p ?u)"
  let ?u2 = "snd (uart_write_bytes False ?q ?u1)"
  have fw': "uart (wifi_promiscuous_rx_cb True False ?cap 128 fw_nearly_full) = ?u2"
    unfolding rx_cb_decides using example_33(1) by simp
  have "length (tx_contents ?u1) = 894"
    using uart_write_bytes_stream(6)[OF fw_nearly_full_uart(1), of True ?p]
    by (simp add: fw_nearly_full_uart len_prefix_length)
  then have f1: "tx_free ?u1 = 129"
    by (simp add: tx_free_def UART_TX_BUFFER_SIZE_def)
  note t = write_twice_stream[OF fw_nearly_full_uart(1), of False ?q True ?p]
  have s: "uart_fifo ?u2 @ tx_contents ?u2 = uart_fifo ?u @ tx_contents ?u @ ?p @ ?q"
    using t(1) by (simp add: f1 fw_nearly_full_uart(3) len_prefix_length example_33(2))
  have o: "uart_tx_overflow_count ?u2 = uart_tx_overflow_count ?u"
    using t(2) by (simp add: f1 fw_nearly_full_uart(3) len_prefix_length example_33(2))
  show ?thesis
    unfolding fw' using example_33 fw_nearly_full_uart(3) s o by simp
qed

section \<open>The bridge from the serial input to the radio\<close>

lemma rx_size_small: "UART_RX_BUFFER_SIZE < 65536"
  by (simp add: UART_RX_BUFFER_SIZE_def)

lemma uart_rx_available_eq:
  assumes "uart_inv s"
  shows "unat (uart_rx_available s) = length (rx_contents s)"
proof -
  let ?N = "UART_RX_BUFFER_SIZE"
  let ?h = "unat (uart_rx_head s)" and ?t = "unat (uart_rx_tail s)"
  have h: "?h < ?N" and t: "?t < ?N" and len: "length (uart_rx_buffer s) = ?N"
    using assms by (simp_all add: uart_inv_def)
  show ?thesis
  proof (cases "uart_rx_tail s \<le> uart_rx_head s")
    case True
    then have le: "?t \<le> ?h" by (simp add: word_le_nat_alt)
    have "unat (uart_rx_available s) = ?h - ?t"
      using True by (simp add: uart_rx_available_def Let_def unat_sub)
    moreover have "(?h + ?N - ?t) mod ?N = ?h + ?N - ?t - ?N"
      using h t le by (intro mod_wrap(2)) simp_all
    ultimately show ?thesis using le by (simp add: rx_contents_length len)
  next
    case False
    then have lt: "?h < ?t" by (simp add: word_le_nat_alt)
    define k where "k = ?N - ?t + ?h"
    have k: "k < 65536" using h t lt rx_size_small by (simp add: k_def)
    have "of_nat ?N - uart_rx_tail s + uart_rx_head s = (of_nat k :: u16)"
      using t by (simp add: of_nat_diff k_def)
    then have "unat (uart_rx_available s) = unat (of_nat k :: u16)"
      using False by (simp add: uart_rx_available_def Let_def)
    also have "\<dots> = k"
      using k by (simp add: unat_of_nat)
    also have "\<dots> = ?N - ?t + ?h" by (rule k_def)
    finally have a: "unat (uart_rx_available s) = ?N - ?t + ?h" .
    have "(?h + ?N - ?t) mod ?N = ?h + ?N - ?t"
      using h t lt by (intro mod_wrap(1)) simp
    then show ?thesis using a t by (simp add: rx_contents_length len)
  qed
qed

lemma housekeeping_frame:
  "uart (housekeeping fw) = uart fw \<and> wifi (housekeeping fw) = wifi fw \<and>
   packet_buffer (housekeeping fw) = packet_buffer fw \<and>
   pkt_expected (housekeeping fw) = pkt_expected fw \<and>
   pkt_received (housekeeping fw) = pkt_received fw \<and>
   packet_fault (housekeeping fw) = packet_fault fw"
  by (simp add: housekeeping_def Let_def)

subsection \<open>The header block\<close>

lemma rx_available_ge2:
  assumes "uart_inv s"
  shows "(uart_rx_available s \<ge> 2) = (2 \<le> length (rx_contents s))"
  using uart_rx_available_eq[OF assms] by (simp add: word_le_nat_alt)

lemma read_header_idle:
  assumes "uart_inv (uart fw)"
    and "pkt_expected fw \<noteq> 0 \<or> length (rx_contents (uart fw)) < 2"
  shows "read_header fw = fw"
  using assms(2) rx_available_ge2[OF assms(1)]
  by (auto simp: read_header_def)

lemma read_header_run:
  assumes "uart_inv (uart fw)" and "pkt_expected fw = 0"
    and "rx_contents (uart fw) = hi # lo # rest"
    and "L = push_bit 8 (ucast hi :: u16) OR ucast lo"
  shows "pkt_expected (read_header fw) = (if L = 0 \<or> unat L > MAX_PACKET_SIZE then 0 else L) \<and>
         pkt_received (read_header fw) = 0 \<and>
         rx_contents (uart (read_header fw)) = rest \<and>
         uart_inv (uart (read_header fw)) \<and>
         tx_contents (uart (read_header fw)) = tx_contents (uart fw) \<and>
         uart_fifo (uart (read_header fw)) = uart_fifo (uart fw) \<and>
         wifi (read_header fw) = wifi fw \<and>
         packet_buffer (read_header fw) = packet_buffer fw \<and>
         packet_fault (read_header fw) = packet_fault fw"
proof -
  have av: "uart_rx_available (uart fw) \<ge> 2"
    using rx_available_ge2[OF assms(1)] assms(3) by simp
  note r = uart_read_bytes_run[OF assms(1), of 2]
  have b: "fst (uart_read_bytes 2 (uart fw)) = [hi, lo]"
    using r assms(3) by simp
  have c: "rx_contents (snd (uart_read_bytes 2 (uart fw))) = rest"
    using r assms(3) by simp
  show ?thesis
    using av b c r assms(2,4)
    by (simp add: read_header_def split_beta Let_def)
qed

subsection \<open>Input from the receive interrupt\<close>

lemma uart_intr_run:
  assumes "uart_inv (uart fw)"
    and "length (rx_contents (uart fw)) + length (intr_bytes i) \<le> UART_RX_BUFFER_SIZE - 1"
  shows "rx_contents (uart (uart_intr i fw)) = rx_contents (uart fw) @ intr_bytes i \<and>
         uart_inv (uart (uart_intr i fw)) \<and>
         tx_contents (uart (uart_intr i fw)) = tx_contents (uart fw) \<and>
         uart_fifo (uart (uart_intr i fw)) = uart_fifo (uart fw) \<and>
         wifi (uart_intr i fw) = wifi fw \<and>
         packet_buffer (uart_intr i fw) = packet_buffer fw \<and>
         pkt_expected (uart_intr i fw) = pkt_expected fw \<and>
         pkt_received (uart_intr i fw) = pkt_received fw \<and>
         packet_fault (uart_intr i fw) = packet_fault fw"
proof -
  obtain f bf t bt where i: "i = (f, bf, t, bt)" by (cases i) auto
  note r = rx_handler_run[OF assms(1), of f bf t bt]
  let ?cap = "UART_RX_BUFFER_SIZE - 1"
  let ?q = "rx_contents (uart fw)"
  let ?a = "if f then bf else []" and ?b = "if t then bt else []"
  have room: "length ?q + length ?a + length ?b \<le> ?cap"
    using assms(2) unfolding i by simp
  have "rx_queue (snd (fifo_do (RxIntr f bf t bt) (abs_uart (uart fw))))
          = rx_contents (uart fw) @ intr_bytes i"
    unfolding i using room
    by (cases f; cases t) (simp_all add: abs_uart_def Let_def fifo_write_def min_def)
  then show ?thesis using r unfolding i by simp
qed

lemma fw_boot_shape:
  "uart_inv (uart fw_boot)" "rx_contents (uart fw_boot) = []" "pkt_expected fw_boot = 0"
  "length (packet_buffer fw_boot) = MAX_PACKET_SIZE"
  by (simp_all add: fw_boot_def uart_init_inv uart_init_empty)

lemma fw_with_input_shape:
  assumes "length bytes \<le> 1023"
  shows "uart_inv (uart (fw_with_input bytes))"
    "rx_contents (uart (fw_with_input bytes)) = bytes"
    "pkt_expected (fw_with_input bytes) = 0"
proof -
  have "length (rx_contents (uart fw_boot)) + length (intr_bytes (True, bytes, False, []))
          \<le> UART_RX_BUFFER_SIZE - 1"
    using assms by (simp add: fw_boot_shape UART_RX_BUFFER_SIZE_def)
  note r = uart_intr_run[OF fw_boot_shape(1) this]
  show "uart_inv (uart (fw_with_input bytes))"
    "rx_contents (uart (fw_with_input bytes)) = bytes"
    "pkt_expected (fw_with_input bytes) = 0"
    using r unfolding fw_with_input_def by (simp_all add: fw_boot_shape)
qed

subsection \<open>Malformed headers\<close>

text \<open>
  C5.  A tick that finds the bridge waiting for a header and reads a length prefix of 0
  or of more than \<open>MAX_PACKET_SIZE\<close> makes no call of \<open>wifi_raw_send\<close>, leaves the wireless
  layer and \<open>packet_buffer\<close> as they were, and is still waiting for a header afterwards,
  with exactly the two bytes of the prefix gone from the receive ring: the header block of
  the next tick decodes the two bytes that followed them.
\<close>

theorem malformed_header_discarded:
  assumes "uart_inv (uart fw)" and "pkt_expected fw = 0"
    and "rx_contents (uart fw) = hi # lo # rest"
    and "push_bit 8 (ucast hi :: u16) OR ucast lo = 0 \<or>
         unat (push_bit 8 (ucast hi :: u16) OR ucast lo) > MAX_PACKET_SIZE"
  shows "fst (main_timer_callback sdk_result fw) = None \<and>
         pkt_expected (snd (main_timer_callback sdk_result fw)) = 0 \<and>
         pkt_received (snd (main_timer_callback sdk_result fw)) = 0 \<and>
         rx_contents (uart (snd (main_timer_callback sdk_result fw))) = rest \<and>
         wifi (snd (main_timer_callback sdk_result fw)) = wifi fw \<and>
         packet_buffer (snd (main_timer_callback sdk_result fw)) = packet_buffer fw \<and>
         (\<forall>hi' lo' rest'. rest = hi' # lo' # rest' \<longrightarrow>
            pkt_expected (read_header (housekeeping (snd (main_timer_callback sdk_result fw))))
              = (if push_bit 8 (ucast hi' :: u16) OR ucast lo' = 0 \<or>
                    unat (push_bit 8 (ucast hi' :: u16) OR ucast lo') > MAX_PACKET_SIZE
                 then 0 else push_bit 8 (ucast hi' :: u16) OR ucast lo'))"
proof -
  let ?h = "housekeeping fw"
  let ?fw1 = "read_header ?h"
  have i: "uart_inv (uart ?h)" and e: "pkt_expected ?h = 0"
    and c: "rx_contents (uart ?h) = hi # lo # rest"
    using assms by (simp_all add: housekeeping_frame)
  note r = read_header_run[OF i e c refl]
  have e1: "pkt_expected ?fw1 = 0" using r assms(4) by auto
  have m: "main_timer_callback sdk_result fw = (None, ?fw1)"
    by (simp add: main_timer_callback_def accumulate_def e1)
  have next_header:
    "pkt_expected (read_header (housekeeping ?fw1))
       = (if push_bit 8 (ucast hi' :: u16) OR ucast lo' = 0 \<or>
             unat (push_bit 8 (ucast hi' :: u16) OR ucast lo') > MAX_PACKET_SIZE
          then 0 else push_bit 8 (ucast hi' :: u16) OR ucast lo')"
    if "rest = hi' # lo' # rest'" for hi' lo' rest'
  proof -
    have "uart_inv (uart (housekeeping ?fw1))" "pkt_expected (housekeeping ?fw1) = 0"
      "rx_contents (uart (housekeeping ?fw1)) = hi' # lo' # rest'"
      using r e1 that by (simp_all add: housekeeping_frame)
    from read_header_run[OF this refl] show ?thesis by simp
  qed
  show ?thesis
    unfolding m using r e1 next_header by (simp add: housekeeping_frame)
qed


text \<open>
  The hypotheses of C5 hold after boot when the bytes \<open>00 00 00 02 11 22\<close> have arrived:
  the tick drops the prefix \<open>00 00\<close> without a call, and the header block of the next tick
  reads the length 2.
\<close>

theorem malformed_header_discarded_witness:
  "uart_inv (uart (fw_with_input [0x00, 0x00, 0x00, 0x02, 0x11, 0x22])) \<and>
   pkt_expected (fw_with_input [0x00, 0x00, 0x00, 0x02, 0x11, 0x22]) = 0 \<and>
   rx_contents (uart (fw_with_input [0x00, 0x00, 0x00, 0x02, 0x11, 0x22]))
     = 0x00 # 0x00 # [0x00, 0x02, 0x11, 0x22] \<and>
   push_bit 8 (ucast (0x00 :: u8) :: u16) OR ucast (0x00 :: u8) = 0 \<and>
   fst (main_timer_callback 0 (fw_with_input [0x00, 0x00, 0x00, 0x02, 0x11, 0x22])) = None \<and>
   rx_contents (uart (snd (main_timer_callback 0
                  (fw_with_input [0x00, 0x00, 0x00, 0x02, 0x11, 0x22]))))
     = [0x00, 0x02, 0x11, 0x22] \<and>
   pkt_expected (read_header (housekeeping (snd (main_timer_callback 0
                  (fw_with_input [0x00, 0x00, 0x00, 0x02, 0x11, 0x22]))))) = 2"
proof -
  let ?fw = "fw_with_input [0x00, 0x00, 0x00, 0x02, 0x11, 0x22]"
  have l: "length [0x00, 0x00, 0x00, 0x02, 0x11, 0x22 :: u8] \<le> 1023" by simp
  note s = fw_with_input_shape[OF l]
  have c: "rx_contents (uart ?fw) = 0x00 # 0x00 # [0x00, 0x02, 0x11, 0x22]" by (rule s(2))
  have z: "push_bit 8 (ucast (0x00 :: u8) :: u16) OR ucast (0x00 :: u8) = 0" by simp
  have bad: "push_bit 8 (ucast (0x00 :: u8) :: u16) OR ucast (0x00 :: u8) = 0 \<or>
             unat (push_bit 8 (ucast (0x00 :: u8) :: u16) OR ucast (0x00 :: u8))
               > MAX_PACKET_SIZE"
    using z by (rule disjI1)
  note T = malformed_header_discarded[OF s(1) s(3) c bad, of 0]
  have n: "fst (main_timer_callback 0 ?fw) = None" by (rule T[THEN conjunct1])
  have r: "rx_contents (uart (snd (main_timer_callback 0 ?fw))) = [0x00, 0x02, 0x11, 0x22]"
    by (rule T[THEN conjunct2, THEN conjunct2, THEN conjunct2, THEN conjunct1])
  have two: "push_bit 8 (ucast (0x00 :: u8) :: u16) OR ucast (0x02 :: u8) = 2" by simp
  have "pkt_expected (read_header (housekeeping (snd (main_timer_callback 0 ?fw))))
          = (if push_bit 8 (ucast (0x00 :: u8) :: u16) OR ucast (0x02 :: u8) = 0 \<or>
                unat (push_bit 8 (ucast (0x00 :: u8) :: u16) OR ucast (0x02 :: u8))
                  > MAX_PACKET_SIZE
             then 0 else push_bit 8 (ucast (0x00 :: u8) :: u16) OR ucast (0x02 :: u8))"
    by (rule T[THEN conjunct2, THEN conjunct2, THEN conjunct2, THEN conjunct2,
          THEN conjunct2, THEN conjunct2, rule_format, of "0x00" "0x02" "[0x11, 0x22]"])
       (rule refl)
  then have h: "pkt_expected (read_header (housekeeping (snd (main_timer_callback 0 ?fw)))) = 2"
    unfolding two by (simp add: MAX_PACKET_SIZE_def)
  from s(1) s(3) c z n r h show ?thesis by blast
qed

subsection \<open>The payload block\<close>

lemma max_packet_small: "MAX_PACKET_SIZE < 65536"
  by (simp add: MAX_PACKET_SIZE_def)

lemma accumulate_run:
  assumes i: "uart_inv (uart fw)"
    and pb: "length (packet_buffer fw) = MAX_PACKET_SIZE"
    and E: "unat (pkt_expected fw) \<le> MAX_PACKET_SIZE"
    and R: "unat (pkt_received fw) < unat (pkt_expected fw)"
    and n: "n = min (length (rx_contents (uart fw)))
                    (unat (pkt_expected fw) - unat (pkt_received fw))"
    and pb': "pb' = take (unat (pkt_received fw)) (packet_buffer fw) @
                    take n (rx_contents (uart fw)) @
                    drop (unat (pkt_received fw) + n) (packet_buffer fw)"
  shows "fst (accumulate sdk_result fw) =
           (if unat (pkt_received fw) + n = unat (pkt_expected fw)
            then Some (pb', pkt_expected fw) else None) \<and>
         packet_buffer (snd (accumulate sdk_result fw)) = pb' \<and>
         rx_contents (uart (snd (accumulate sdk_result fw))) = drop n (rx_contents (uart fw)) \<and>
         uart_inv (uart (snd (accumulate sdk_result fw))) \<and>
         pkt_expected (snd (accumulate sdk_result fw)) =
           (if unat (pkt_received fw) + n = unat (pkt_expected fw)
            then 0 else pkt_expected fw) \<and>
         unat (pkt_received (snd (accumulate sdk_result fw))) =
           (if unat (pkt_received fw) + n = unat (pkt_expected fw)
            then 0 else unat (pkt_received fw) + n)"
proof -
  let ?E = "pkt_expected fw" and ?R = "pkt_received fw"
  let ?c = "rx_contents (uart fw)"
  let ?remaining = "?E - ?R"
  let ?avail = "uart_rx_available (uart fw)"
  let ?to_read = "if ?avail < ?remaining then ?avail else ?remaining"
  have pos: "?E > 0" using R by (simp add: word_less_nat_alt)
  have RE: "?R \<le> ?E" using R by (simp add: word_le_nat_alt)
  have rem: "unat ?remaining = unat ?E - unat ?R" using RE by (rule unat_sub)
  have av: "unat ?avail = length ?c" by (rule uart_rx_available_eq[OF i])
  have tr: "unat ?to_read = n"
    unfolding n using rem av by (simp add: word_less_nat_alt min_def)
  have nle: "n \<le> length ?c" "unat ?R + n \<le> unat ?E" using R unfolding n by simp_all
  show ?thesis
  proof (cases "n = 0")
    case True
    then have z: "?to_read = 0" using tr by (simp add: unat_eq_0)
    have inc: "\<not> (?R \<ge> ?E)" using R by (simp add: word_le_nat_alt)
    have a: "accumulate sdk_result fw = (None, fw)"
      using pos z inc by (simp add: accumulate_def Let_def)
    have p: "pb' = packet_buffer fw" unfolding pb' using True by simp
    show ?thesis unfolding a using True R i p by simp
  next
    case False
    then have nz: "?to_read > 0" using tr by (simp add: word_less_nat_alt)
    note rd = uart_read_bytes_run[OF i, of ?to_read]
    let ?bytes = "fst (uart_read_bytes ?to_read (uart fw))"
    let ?u1 = "snd (uart_read_bytes ?to_read (uart fw))"
    have b: "?bytes = take n ?c" using rd tr by simp
    have lb: "length ?bytes = n" unfolding b using nle(1) by simp
    have c1: "rx_contents ?u1 = drop n ?c" "uart_inv ?u1" using rd tr by simp_all
    have fit: "unat ?R + length ?bytes \<le> length (packet_buffer fw)"
      using nle(2) E unfolding lb pb by simp
    have st: "packet_store (unat ?R) ?bytes fw = fw\<lparr>packet_buffer := pb'\<rparr>"
      using fit unfolding packet_store_def mem_store_def pb' b[symmetric] lb by simp
    have small: "unat ?R + n < 65536" using nle(2) E max_packet_small by simp
    have rcv: "unat (?R + of_nat (length ?bytes)) = unat ?R + n"
      unfolding lb using small by (simp add: unat_word_ariths unat_of_nat)
    let ?fw1 = "fw\<lparr>packet_buffer := pb', uart := ?u1,
                   pkt_received := ?R + of_nat (length ?bytes)\<rparr>"
    have done_iff: "(?R + of_nat (length ?bytes) \<ge> ?E) = (unat ?R + n = unat ?E)"
      using nle(2) unfolding word_le_nat_alt rcv by auto
    have a: "accumulate sdk_result fw =
               (if unat ?R + n = unat ?E
                then (Some (pb', ?E),
                      ?fw1\<lparr>wifi := snd (wifi_raw_send sdk_result (Some pb') ?E (wifi fw)),
                           pkt_expected := 0, pkt_received := 0\<rparr>)
                else (None, ?fw1))"
      using pos nz done_iff
      by (simp add: accumulate_def Let_def split_beta st)
    show ?thesis unfolding a using c1 rcv by simp
  qed
qed

subsection \<open>One packet, split over ticks at will\<close>

lemma decode_length_prefix:
  "push_bit 8 (ucast (ucast (drop_bit 8 len) :: u8) :: u16) OR ucast (ucast len :: u8)
     = (len :: u16)"
  by (rule bit_word_eqI) (auto simp: bit_simps)

lemma length_prefix_length: "length (length_prefix len) = 2"
  by (simp add: length_prefix_def)

lemma chunk_of_prefix:
  assumes "q @ c = take (length q + length c) s"
  shows "c = take (length c) (drop (length q) s)"
proof -
  have "c = drop (length q) (q @ c)" by simp
  also have "\<dots> = drop (length q) (take (length q + length c) s)" by (simp only: assms)
  also have "\<dots> = take (length c) (drop (length q) s)" by (simp add: drop_take)
  finally show ?thesis .
qed

lemma accumulate_waiting:
  assumes "pkt_expected fw = 0"
  shows "accumulate sdk_result fw = (None, fw)"
  using assms by (simp add: accumulate_def)

lemma tick_header_phase:
  assumes valid: "1 \<le> unat len" "unat len \<le> MAX_PACKET_SIZE" "length payload = unat len"
    and h: "uart_inv (uart h)" "length (packet_buffer h) = MAX_PACKET_SIZE"
      "pkt_expected h = 0" "rx_contents (uart h) = d"
    and d: "d = take (length d) (length_prefix len @ payload)"
    and dl: "length d \<le> length payload + 2"
  shows "if length d = length payload + 2
         then call_bytes (fst (accumulate sdk_result (read_header h))) = Some payload \<and>
              bridge_idle (snd (accumulate sdk_result (read_header h)))
         else fst (accumulate sdk_result (read_header h)) = None \<and>
              mid_packet len payload d (snd (accumulate sdk_result (read_header h)))"
proof (cases "length d < 2")
  case True
  have rh: "read_header h = h"
    using True h(4) by (intro read_header_idle[OF h(1)]) simp
  have a: "accumulate sdk_result (read_header h) = (None, h)"
    unfolding rh by (rule accumulate_waiting[OF h(3)])
  have "length d \<noteq> length payload + 2" using True by simp
  then show ?thesis
    unfolding a using True h by (simp add: mid_packet_def)
next
  case False
  define k where "k = length d - 2"
  define rest where "rest = take k payload"
  have kl: "k \<le> length payload" "length d = k + 2" using False dl by (simp_all add: k_def)
  have lr: "length rest = k" using kl(1) by (simp add: rest_def)
  have "d = length_prefix len @ rest"
    using d False unfolding rest_def k_def by (simp add: length_prefix_length)
  then have dd: "rx_contents (uart h) = ucast (drop_bit 8 len) # ucast len # rest"
    unfolding h(4) by (simp add: length_prefix_def)
  note rh = read_header_run[OF h(1) h(3) dd refl, unfolded decode_length_prefix]
  have len0: "len \<noteq> 0" using valid(1) by auto
  let ?fw1 = "read_header h"
  have f1: "uart_inv (uart ?fw1)" "length (packet_buffer ?fw1) = MAX_PACKET_SIZE"
    "pkt_expected ?fw1 = len" "pkt_received ?fw1 = 0" "rx_contents (uart ?fw1) = rest"
    "packet_buffer ?fw1 = packet_buffer h"
    using rh len0 valid(2) h(2) by simp_all
  have E: "unat (pkt_expected ?fw1) \<le> MAX_PACKET_SIZE" using valid(2) f1(3) by simp
  have R: "unat (pkt_received ?fw1) < unat (pkt_expected ?fw1)"
    using valid(1) f1(3,4) by simp
  have n: "k = min (length (rx_contents (uart ?fw1)))
                   (unat (pkt_expected ?fw1) - unat (pkt_received ?fw1))"
    using kl(1) valid(3) lr f1(3,4,5) by simp
  define pb' where "pb' = rest @ drop k (packet_buffer h)"
  have pb': "pb' = take (unat (pkt_received ?fw1)) (packet_buffer ?fw1) @
                   take k (rx_contents (uart ?fw1)) @
                   drop (unat (pkt_received ?fw1) + k) (packet_buffer ?fw1)"
    unfolding pb'_def f1(4,5,6) using lr by simp
  note acc = accumulate_run[OF f1(1) f1(2) E R n pb', of sdk_result]
  have done_iff: "(unat (pkt_received ?fw1) + k = unat (pkt_expected ?fw1))
                    = (length d = length payload + 2)"
    using kl(2) valid(3) f1(3,4) by simp
  have lpb': "length pb' = MAX_PACKET_SIZE"
    unfolding pb'_def using lr kl(1) valid(2,3) h(2) by simp
  have tk: "take k pb' = take k payload" unfolding pb'_def rest_def using lr rest_def by simp
  show ?thesis
  proof (cases "length d = length payload + 2")
    case True
    then have kp: "k = length payload" using kl(2) by simp
    then have full: "take (unat len) pb' = payload" using tk valid(3) by simp
    have "fst (accumulate sdk_result ?fw1) = Some (pb', len)"
      using acc done_iff True f1(3) by simp
    then have "call_bytes (fst (accumulate sdk_result ?fw1)) = Some payload"
      using full by simp
    moreover have "bridge_idle (snd (accumulate sdk_result ?fw1))"
      using acc done_iff True lpb' lr f1(5) by (simp add: bridge_idle_def)
    ultimately show ?thesis using True by simp
  next
    case False
    have "fst (accumulate sdk_result ?fw1) = None" using acc done_iff False by simp
    moreover have "mid_packet len payload d (snd (accumulate sdk_result ?fw1))"
      using acc done_iff False lpb' lr f1(3,4,5) kl(2) tk
      by (simp add: mid_packet_def)
    ultimately show ?thesis using False by simp
  qed
qed

lemma tick_payload_phase:
  assumes valid: "1 \<le> unat len" "unat len \<le> MAX_PACKET_SIZE" "length payload = unat len"
    and h: "uart_inv (uart h)" "length (packet_buffer h) = MAX_PACKET_SIZE"
      "pkt_expected h = len" "unat (pkt_received h) = r"
      "take r (packet_buffer h) = take r payload" "rx_contents (uart h) = c"
    and c: "c = take (length c) (drop r payload)"
    and rc: "r + length c \<le> length payload" "r < length payload"
  shows "if r + length c = length payload
         then call_bytes (fst (accumulate sdk_result (read_header h))) = Some payload \<and>
              bridge_idle (snd (accumulate sdk_result (read_header h)))
         else fst (accumulate sdk_result (read_header h)) = None \<and>
              uart_inv (uart (snd (accumulate sdk_result (read_header h)))) \<and>
              length (packet_buffer (snd (accumulate sdk_result (read_header h))))
                = MAX_PACKET_SIZE \<and>
              pkt_expected (snd (accumulate sdk_result (read_header h))) = len \<and>
              unat (pkt_received (snd (accumulate sdk_result (read_header h))))
                = r + length c \<and>
              take (r + length c) (packet_buffer (snd (accumulate sdk_result (read_header h))))
                = take (r + length c) payload \<and>
              rx_contents (uart (snd (accumulate sdk_result (read_header h)))) = []"
proof -
  have len0: "len \<noteq> 0" using valid(1) by auto
  have rh: "read_header h = h"
    using len0 h(3) by (intro read_header_idle[OF h(1)]) simp
  have E: "unat (pkt_expected h) \<le> MAX_PACKET_SIZE" using valid(2) h(3) by simp
  have R: "unat (pkt_received h) < unat (pkt_expected h)"
    using rc(2) valid(3) h(3,4) by simp
  have n: "length c = min (length (rx_contents (uart h)))
                          (unat (pkt_expected h) - unat (pkt_received h))"
    using rc(1) valid(3) h(3,4,6) by simp
  define pb' where "pb' = take r payload @ c @ drop (r + length c) (packet_buffer h)"
  have pb': "pb' = take (unat (pkt_received h)) (packet_buffer h) @
                   take (length c) (rx_contents (uart h)) @
                   drop (unat (pkt_received h) + length c) (packet_buffer h)"
    unfolding pb'_def h(4,5,6) by simp
  note acc = accumulate_run[OF h(1) h(2) E R n pb', of sdk_result]
  have done_iff: "(unat (pkt_received h) + length c = unat (pkt_expected h))
                    = (r + length c = length payload)"
    using valid(3) h(3,4) by simp
  have rl: "length (take r payload) = r" using rc(2) by simp
  have lpb': "length pb' = MAX_PACKET_SIZE"
    unfolding pb'_def using rl rc(1) valid(2,3) h(2) by simp
  have "take (r + length c) payload = take r payload @ take (length c) (drop r payload)"
    by (rule take_add)
  then have pre: "take (r + length c) payload = take r payload @ c"
    using c by simp
  have "take (r + length c) pb' = take r payload @ c"
    unfolding pb'_def using rl by simp
  then have tk: "take (r + length c) pb' = take (r + length c) payload"
    using pre by simp
  show ?thesis
  proof (cases "r + length c = length payload")
    case True
    then have full: "take (unat len) pb' = payload" using tk valid(3) by simp
    have "fst (accumulate sdk_result h) = Some (pb', len)"
      using acc done_iff True h(3) by simp
    then have "call_bytes (fst (accumulate sdk_result h)) = Some payload"
      using full by simp
    moreover have "bridge_idle (snd (accumulate sdk_result h))"
      using acc done_iff True lpb' h(6) by (simp add: bridge_idle_def)
    ultimately show ?thesis unfolding rh using True by simp
  next
    case False
    then show ?thesis
      unfolding rh using acc done_iff lpb' h(3,4,6) tk by simp
  qed
qed

lemma packet_fits_ring: "MAX_PACKET_SIZE + 2 \<le> UART_RX_BUFFER_SIZE - 1"
  by (simp add: MAX_PACKET_SIZE_def UART_RX_BUFFER_SIZE_def)

lemma tick_step:
  assumes valid: "1 \<le> unat len" "unat len \<le> MAX_PACKET_SIZE" "length payload = unat len"
    and inv: "mid_packet len payload q fw"
    and pre: "q @ intr_bytes i
                = take (length q + length (intr_bytes i)) (length_prefix len @ payload)"
    and fit: "length q + length (intr_bytes i) \<le> length payload + 2"
    and strict: "length q < length payload + 2"
  shows "if length q + length (intr_bytes i) = length payload + 2
         then call_bytes (fst (main_timer_callback sdk_result (uart_intr i fw)))
                = Some payload \<and>
              bridge_idle (snd (main_timer_callback sdk_result (uart_intr i fw)))
         else fst (main_timer_callback sdk_result (uart_intr i fw)) = None \<and>
              mid_packet len payload (q @ intr_bytes i)
                (snd (main_timer_callback sdk_result (uart_intr i fw)))"
proof -
  let ?c = "intr_bytes i"
  let ?h = "housekeeping (uart_intr i fw)"
  have i0: "uart_inv (uart fw)" and pb0: "length (packet_buffer fw) = MAX_PACKET_SIZE"
    using inv by (simp_all add: mid_packet_def)
  have held: "length (rx_contents (uart fw)) \<le> length q"
    using inv by (simp add: mid_packet_def split: if_splits)
  have room: "length (rx_contents (uart fw)) + length ?c \<le> UART_RX_BUFFER_SIZE - 1"
    using held fit valid(2,3) packet_fits_ring by linarith
  note u = uart_intr_run[OF i0 room]
  have h: "uart_inv (uart ?h)" "length (packet_buffer ?h) = MAX_PACKET_SIZE"
    "pkt_expected ?h = pkt_expected fw" "pkt_received ?h = pkt_received fw"
    "packet_buffer ?h = packet_buffer fw"
    "rx_contents (uart ?h) = rx_contents (uart fw) @ ?c"
    using u pb0 by (simp_all add: housekeeping_frame)
  have m: "main_timer_callback sdk_result (uart_intr i fw)
             = accumulate sdk_result (read_header ?h)"
    by (simp add: main_timer_callback_def)
  show ?thesis
  proof (cases "length q < 2")
    case True
    have e: "pkt_expected ?h = 0" and c: "rx_contents (uart ?h) = q @ ?c"
      using inv True h(3,6) by (simp_all add: mid_packet_def)
    have d: "q @ ?c = take (length (q @ ?c)) (length_prefix len @ payload)"
      unfolding length_append by (rule pre)
    have dl: "length (q @ ?c) \<le> length payload + 2" using fit by simp
    show ?thesis
      unfolding m
      using tick_header_phase[OF valid h(1) h(2) e c d dl, of sdk_result]
      by simp
  next
    case False
    define r where "r = length q - 2"
    have q2: "length q = r + 2" using False by (simp add: r_def)
    have e: "pkt_expected ?h = len" and rv: "unat (pkt_received ?h) = r"
      and tk: "take r (packet_buffer ?h) = take r payload"
      and c: "rx_contents (uart ?h) = ?c"
      using inv False h(3,4,5,6) by (simp_all add: mid_packet_def r_def)
    have "?c = take (length ?c) (drop (length q) (length_prefix len @ payload))"
      by (rule chunk_of_prefix[OF pre])
    then have cc: "?c = take (length ?c) (drop r payload)"
      unfolding q2 by (simp add: length_prefix_length)
    have rc: "r + length ?c \<le> length payload" "r < length payload"
      using fit strict q2 by simp_all
    note t = tick_payload_phase[OF valid h(1) h(2) e rv tk c cc rc, of sdk_result]
    have dn: "(length q + length ?c = length payload + 2) = (r + length ?c = length payload)"
      using q2 by simp
    show ?thesis
      unfolding m dn using t q2
      by (simp add: mid_packet_def)
  qed
qed

lemma idle_tick:
  assumes "bridge_idle fw"
  shows "fst (main_timer_callback sdk_result fw) = None \<and>
         bridge_idle (snd (main_timer_callback sdk_result fw))"
proof -
  let ?h = "housekeeping fw"
  have h: "uart_inv (uart ?h)" "pkt_expected ?h = 0" "rx_contents (uart ?h) = []"
    "length (packet_buffer ?h) = MAX_PACKET_SIZE"
    using assms by (simp_all add: bridge_idle_def housekeeping_frame)
  have rh: "read_header ?h = ?h"
    using h(3) by (intro read_header_idle[OF h(1)]) simp
  have "main_timer_callback sdk_result fw = (None, ?h)"
    unfolding main_timer_callback_def rh by (rule accumulate_waiting[OF h(2)])
  then show ?thesis using h by (simp add: bridge_idle_def)
qed

lemma bridge_run_packet:
  assumes valid: "1 \<le> unat len" "unat len \<le> MAX_PACKET_SIZE" "length payload = unat len"
    and inv: "mid_packet len payload q fw"
    and all: "q @ concat (map (\<lambda>st. intr_bytes (fst st)) steps) = length_prefix len @ payload"
    and ne: "steps \<noteq> []"
    and lst: "intr_bytes (fst (last steps)) \<noteq> []"
  shows "map call_bytes (fst (bridge_run steps fw))
           = replicate (length steps - 1) None @ [Some payload] \<and>
         bridge_idle (snd (bridge_run steps fw))"
  using inv all ne lst
proof (induction steps arbitrary: q fw)
  case Nil
  then show ?case by simp
next
  case (Cons st rest)
  obtain i sdk_result where st: "st = (i, sdk_result)" by (cases st) auto
  let ?c = "intr_bytes i"
  let ?tail = "concat (map (\<lambda>st. intr_bytes (fst st)) rest)"
  let ?s = "length_prefix len @ payload"
  have s: "(q @ ?c) @ ?tail = ?s" using Cons.prems(2) unfolding st by simp
  have ls: "length ?s = length payload + 2" by (simp add: length_prefix_length)
  have lsum: "length q + length ?c + length ?tail = length payload + 2"
    using arg_cong[OF s, of length] ls by simp
  have "take (length (q @ ?c)) ((q @ ?c) @ ?tail) = q @ ?c" by simp
  then have pre: "q @ ?c = take (length q + length ?c) ?s"
    unfolding s by simp
  have fit: "length q + length ?c \<le> length payload + 2" using lsum by simp
  have more: "?c @ ?tail \<noteq> []"
  proof (cases "rest = []")
    case True
    then show ?thesis using Cons.prems(4) unfolding st by simp
  next
    case False
    then have "last rest \<in> set rest" by simp
    moreover have "intr_bytes (fst (last rest)) \<noteq> []"
      using Cons.prems(4) False by simp
    ultimately have "?tail \<noteq> []" by auto
    then show ?thesis by simp
  qed
  then have "0 < length ?c + length ?tail"
    by (metis length_append length_greater_0_conv)
  then have strict: "length q < length payload + 2" using lsum by linarith
  note t = tick_step[OF valid Cons.prems(1) pre fit strict, of sdk_result]
  let ?r = "main_timer_callback sdk_result (uart_intr i fw)"
  show ?case
  proof (cases "rest = []")
    case True
    then have "length q + length ?c = length payload + 2" using lsum by simp
    then have "call_bytes (fst ?r) = Some payload" "bridge_idle (snd ?r)"
      using t by simp_all
    then show ?thesis unfolding st True by (simp add: split_beta)
  next
    case False
    then have "last rest \<in> set rest" by simp
    moreover have lr: "intr_bytes (fst (last rest)) \<noteq> []"
      using Cons.prems(4) False by simp
    ultimately have "?tail \<noteq> []" by auto
    then have "0 < length ?tail" by (rule length_greater_0_conv[THEN iffD2])
    then have "length q + length ?c \<noteq> length payload + 2" using lsum by linarith
    then have now: "fst ?r = None" and m: "mid_packet len payload (q @ ?c) (snd ?r)"
      using t by simp_all
    note ih = Cons.IH[OF m s False lr]
    have "replicate (length (st # rest) - 1) (None :: u8 list option)
            = None # replicate (length rest - 1) None"
      using False by (cases rest) simp_all
    then show ?thesis
      unfolding st using ih now by (simp add: split_beta)
  qed
qed

text \<open>
  C1.  Let the bridge wait for a header with an empty receive ring, and let the receive
  interrupt deliver the 2-byte big-endian prefix of a length \<open>len\<close> between 1 and
  \<open>MAX_PACKET_SIZE\<close> followed by \<open>len\<close> payload bytes, split over the steps of a schedule in
  any way, each step being one interrupt and one tick, the last step bringing the last
  byte.  Then no tick before the last calls \<open>wifi_raw_send\<close>, the last tick calls it once,
  and the bytes the call designates are the payload, unmodified and in order.  Afterwards
  the ring is drained, the bridge waits for a header again, and a further tick makes no
  call.
\<close>

theorem serial_packet_sent_once:
  assumes "uart_inv (uart fw)" and "length (packet_buffer fw) = MAX_PACKET_SIZE"
    and "pkt_expected fw = 0" and "rx_contents (uart fw) = []"
    and "1 \<le> unat len" and "unat len \<le> MAX_PACKET_SIZE" and "length payload = unat len"
    and "concat (map (\<lambda>st. intr_bytes (fst st)) steps) = length_prefix len @ payload"
    and "intr_bytes (fst (last steps)) \<noteq> []"
  shows "map call_bytes (fst (bridge_run steps fw))
           = replicate (length steps - 1) None @ [Some payload] \<and>
         pkt_expected (snd (bridge_run steps fw)) = 0 \<and>
         rx_contents (uart (snd (bridge_run steps fw))) = [] \<and>
         fst (main_timer_callback sdk_result (snd (bridge_run steps fw))) = None"
proof -
  have m: "mid_packet len payload [] fw"
    using assms(1-4) by (simp add: mid_packet_def)
  have a: "[] @ concat (map (\<lambda>st. intr_bytes (fst st)) steps) = length_prefix len @ payload"
    using assms(8) by simp
  have ne: "steps \<noteq> []" using assms(8) by (auto simp: length_prefix_def)
  note r = bridge_run_packet[OF assms(5-7) m a ne assms(9)]
  have idle: "bridge_idle (snd (bridge_run steps fw))" using r by simp
  show ?thesis
    using r idle_tick[OF idle, of sdk_result] idle by (simp add: bridge_idle_def)
qed

text \<open>
  The hypotheses of C1 hold for the packet \<open>00 02 11 22\<close> delivered after boot in two
  halves, the header before the first tick and the payload before the second: the first
  tick makes no call, the second calls \<open>wifi_raw_send\<close> on the bytes \<open>11 22\<close>.
\<close>

theorem serial_packet_sent_once_witness:
  "uart_inv (uart fw_boot) \<and> length (packet_buffer fw_boot) = MAX_PACKET_SIZE \<and>
   pkt_expected fw_boot = 0 \<and> rx_contents (uart fw_boot) = [] \<and>
   1 \<le> unat (2 :: u16) \<and> unat (2 :: u16) \<le> MAX_PACKET_SIZE \<and>
   length [0x11, 0x22 :: u8] = unat (2 :: u16) \<and>
   concat (map (\<lambda>st. intr_bytes (fst st))
             [((True, [0x00, 0x02], False, []), 0 :: int),
              ((False, [], True, [0x11, 0x22]), 0)])
     = length_prefix 2 @ [0x11, 0x22] \<and>
   intr_bytes (fst (last [((True, [0x00, 0x02], False, []), 0 :: int),
                          ((False, [], True, [0x11, 0x22]), 0)])) \<noteq> [] \<and>
   map call_bytes
     (fst (bridge_run [((True, [0x00, 0x02], False, []), 0),
                       ((False, [], True, [0x11, 0x22]), 0)] fw_boot))
     = [None, Some [0x11, 0x22]]"
proof -
  let ?steps = "[((True, [0x00, 0x02], False, []), 0 :: int),
                 ((False, [], True, [0x11, 0x22 :: u8]), 0)]"
  have v1: "1 \<le> unat (2 :: u16)" by simp
  have v2: "unat (2 :: u16) \<le> MAX_PACKET_SIZE" by (simp add: MAX_PACKET_SIZE_def)
  have v3: "length [0x11, 0x22 :: u8] = unat (2 :: u16)" by simp
  have c: "concat (map (\<lambda>st. intr_bytes (fst st)) ?steps) = length_prefix 2 @ [0x11, 0x22]"
    by (simp add: length_prefix_def)
  have l: "intr_bytes (fst (last ?steps)) \<noteq> []" by simp
  note T = serial_packet_sent_once[OF fw_boot_shape(1) fw_boot_shape(4) fw_boot_shape(3)
      fw_boot_shape(2) v1 v2 v3 c l, of 0]
  have out: "map call_bytes (fst (bridge_run ?steps fw_boot)) = [None, Some [0x11, 0x22]]"
    using T[THEN conjunct1] by simp
  from fw_boot_shape(1) fw_boot_shape(4) fw_boot_shape(3) fw_boot_shape(2) v1 v2 v3 c l out
  show ?thesis by blast
qed

end
